theory Spec2Isabelle
  imports Complex_Main "HOL-Library.Word"
begin

section \<open>Orders (order.go)\<close>

text \<open>
  The Go enumerations are string types, so a value outside the declared constants
  (for example the side \<open>"HOLD"\<close> of the simulation, or the empty string left by
  \<open>Reset\<close>) is a legal value of the type. They are modelled as strings.
\<close>

type_synonym Side = string

definition Buy :: Side where "Buy = ''BUY''"
definition Sell :: Side where "Sell = ''SELL''"

type_synonym OrderType = string

definition Limit :: OrderType where "Limit = ''LIMIT''"
definition Market :: OrderType where "Market = ''MARKET''"
definition IOC :: OrderType where "IOC = ''IOC''"

type_synonym OrderStatus = string

definition StatusOpen :: OrderStatus where "StatusOpen = ''OPEN''"
definition StatusPartial :: OrderStatus where "StatusPartial = ''PARTIAL''"
definition StatusFilled :: OrderStatus where "StatusFilled = ''FILLED''"
definition StatusCancelled :: OrderStatus where "StatusCancelled = ''CANCELLED''"
definition StatusRejected :: OrderStatus where "StatusRejected = ''REJECTED''"

text \<open>
  A price is a \<open>float64\<close>: NaN, an infinity or a finite number. The engine only copies
  and compares prices, so a finite value is taken as the rational number it denotes (the
  two zeros compare equal and are one value here; every rational is allowed as a finite
  price, so what holds for all prices here holds for all \<open>float64\<close> prices). The
  comparisons are those of Go:
  with a NaN operand \<open><\<close>, \<open>>\<close>, \<open><=\<close> and \<open>==\<close> are false and \<open>!=\<close> is true.
\<close>

datatype float64 = NaN | NegInf | Finite rat | PosInf

fun f_lt :: "float64 \<Rightarrow> float64 \<Rightarrow> bool" where
  "f_lt NaN y = False"
| "f_lt x NaN = False"
| "f_lt NegInf NegInf = False"
| "f_lt NegInf y = True"
| "f_lt (Finite a) (Finite b) = (a < b)"
| "f_lt (Finite a) PosInf = True"
| "f_lt (Finite a) NegInf = False"
| "f_lt PosInf y = False"

definition f_gt :: "float64 \<Rightarrow> float64 \<Rightarrow> bool" where
  "f_gt x y = f_lt y x"

definition f_eq :: "float64 \<Rightarrow> float64 \<Rightarrow> bool" where
  "f_eq x y \<longleftrightarrow> x \<noteq> NaN \<and> y \<noteq> NaN \<and> x = y"

definition f_ne :: "float64 \<Rightarrow> float64 \<Rightarrow> bool" where
  "f_ne x y \<longleftrightarrow> \<not> f_eq x y"

definition f_le :: "float64 \<Rightarrow> float64 \<Rightarrow> bool" where
  "f_le x y \<longleftrightarrow> f_lt x y \<or> f_eq x y"

text \<open>
  \<open>ID\<close> is a \<open>uint64\<close>; \<open>Quantity\<close>, \<open>Filled\<close> and \<open>Timestamp\<close> are \<open>int64\<close>:
  64-bit words, read as two's complement (\<open>sint\<close>, \<open><s\<close>, \<open>\<le>s\<close>) wherever the source
  compares them, with wrapping \<open>+\<close> and \<open>-\<close>.
\<close>

record Order =
  ID :: "64 word"
  Symbol :: string
  Side :: Side
  Type :: OrderType
  Status :: OrderStatus
  Price :: float64
  Quantity :: "64 word"
  Filled :: "64 word"
  Timestamp :: "64 word"

text \<open>
  The two constructors take the fresh id from the global order counter and the time from
  the clock; both are arguments here.
\<close>

definition NewLimitOrder :: "64 word \<Rightarrow> 64 word \<Rightarrow> string \<Rightarrow> Side \<Rightarrow> float64 \<Rightarrow> 64 word \<Rightarrow> Order" where
  "NewLimitOrder nextOrderID now symb side price qty =
     \<lparr>ID = nextOrderID, Symbol = symb, Side = side, Type = Limit, Status = StatusOpen,
      Price = price, Quantity = qty, Filled = 0, Timestamp = now\<rparr>"

definition NewMarketOrder :: "64 word \<Rightarrow> 64 word \<Rightarrow> string \<Rightarrow> Side \<Rightarrow> 64 word \<Rightarrow> Order" where
  "NewMarketOrder nextOrderID now symb side qty =
     \<lparr>ID = nextOrderID, Symbol = symb, Side = side, Type = Market, Status = StatusOpen,
      Price = Finite 0, Quantity = qty, Filled = 0, Timestamp = now\<rparr>"

definition Remaining :: "Order \<Rightarrow> 64 word" where
  "Remaining x = Quantity x - Filled x"

definition IsFilled :: "Order \<Rightarrow> bool" where
  "IsFilled x = (Quantity x \<le>s Filled x)"

definition IsActive :: "Order \<Rightarrow> bool" where
  "IsActive x = (Status x = StatusOpen \<or> Status x = StatusPartial)"

text \<open>
  Orders are handled through pointers (\<open>*Order\<close>): the caller, the book's heaps and the
  matching loop share the same objects, and one order can sit in a heap several times.
  The memory is an explicit store from addresses to orders; a heap is a list of addresses;
  a possibly nil pointer is an \<open>addr option\<close>.
\<close>

type_synonym addr = nat
type_synonym store = "addr \<Rightarrow> Order"

section \<open>Trades (trade.go)\<close>

record Trade =
  Trade_ID :: "64 word"
  Trade_Symbol :: string
  BuyOrderID :: "64 word"
  SellOrderID :: "64 word"
  Trade_Price :: float64
  Trade_Quantity :: "64 word"
  Trade_Timestamp :: "64 word"

text \<open>\<open>nextTradeID\<close> adds one to the global counter and returns the new value.\<close>

definition nextTradeID :: "64 word \<Rightarrow> 64 word \<times> 64 word" where
  "nextTradeID globalTradeSeq = (globalTradeSeq + 1, globalTradeSeq + 1)"

definition newTrade ::
  "64 word \<Rightarrow> string \<Rightarrow> 64 word \<Rightarrow> 64 word \<Rightarrow> float64 \<Rightarrow> 64 word \<Rightarrow> 64 word \<Rightarrow> Trade \<times> 64 word" where
  "newTrade globalTradeSeq symb buyID sellID price qty ts =
     (let (tid, seq') = nextTradeID globalTradeSeq
      in (\<lparr>Trade_ID = tid, Trade_Symbol = symb, BuyOrderID = buyID, SellOrderID = sellID,
            Trade_Price = price, Trade_Quantity = qty, Trade_Timestamp = ts\<rparr>, seq'))"

record TradeLog =
  trades :: "Trade list"

definition NewTradeLog :: TradeLog where
  "NewTradeLog = \<lparr>trades = []\<rparr>"

definition AddAll :: "TradeLog \<Rightarrow> Trade list \<Rightarrow> TradeLog" where
  "AddAll lg ts = lg\<lparr>trades := trades lg @ ts\<rparr>"

definition Count :: "TradeLog \<Rightarrow> nat" where
  "Count lg = length (trades lg)"

section \<open>The heaps (orderbook.go over Go's container/heap)\<close>

type_synonym BidHeap = "addr list"
type_synonym AskHeap = "addr list"

definition BidHeap_Less :: "store \<Rightarrow> BidHeap \<Rightarrow> nat \<Rightarrow> nat \<Rightarrow> bool" where
  "BidHeap_Less s h i j =
     (if f_ne (Price (s (h ! i))) (Price (s (h ! j)))
      then f_gt (Price (s (h ! i))) (Price (s (h ! j)))
      else Timestamp (s (h ! i)) <s Timestamp (s (h ! j)))"

definition AskHeap_Less :: "store \<Rightarrow> AskHeap \<Rightarrow> nat \<Rightarrow> nat \<Rightarrow> bool" where
  "AskHeap_Less s h i j =
     (if f_ne (Price (s (h ! i))) (Price (s (h ! j)))
      then f_lt (Price (s (h ! i))) (Price (s (h ! j)))
      else Timestamp (s (h ! i)) <s Timestamp (s (h ! j)))"

definition Swap :: "addr list \<Rightarrow> nat \<Rightarrow> nat \<Rightarrow> addr list" where
  "Swap h i j = h[i := h ! j, j := h ! i]"

text \<open>
  \<open>heap.Push\<close> and \<open>heap.Pop\<close> are Go's standard library, transcribed here from
  \<open>container/heap\<close>: \<open>up\<close> and \<open>down\<close> are its two sift loops. The first argument is the
  \<open>Less\<close> method of the heap they run on. Indices are Go \<open>int\<close>s that stay in
  \<open>[0, len)\<close>; the parent \<open>(j - 1) / 2\<close> of index 0 is 0 in Go (division truncates
  towards zero) and in \<open>nat\<close>.
\<close>

function up :: "(addr list \<Rightarrow> nat \<Rightarrow> nat \<Rightarrow> bool) \<Rightarrow> addr list \<Rightarrow> nat \<Rightarrow> addr list" where
  "up Less h j =
     (let i = (j - 1) div 2
      in if i = j \<or> \<not> Less h j i then h else up Less (Swap h i j) i)"
  by pat_completeness auto
termination
  by (relation "measure (\<lambda>(Less, h, j). j)") auto

declare up.simps [simp del]

function down :: "(addr list \<Rightarrow> nat \<Rightarrow> nat \<Rightarrow> bool) \<Rightarrow> addr list \<Rightarrow> nat \<Rightarrow> nat \<Rightarrow> addr list" where
  "down Less h i n =
     (let j1 = 2 * i + 1
      in if n \<le> j1 then h
         else let j = (if j1 + 1 < n \<and> Less h (j1 + 1) j1 then j1 + 1 else j1)
              in if \<not> Less h j i then h else down Less (Swap h i j) j n)"
  by pat_completeness auto
termination
  by (relation "measure (\<lambda>(Less, h, i, n). n - i)") auto

declare down.simps [simp del]

definition heap_Push :: "(addr list \<Rightarrow> nat \<Rightarrow> nat \<Rightarrow> bool) \<Rightarrow> addr list \<Rightarrow> addr \<Rightarrow> addr list" where
  "heap_Push Less h x = (let h' = h @ [x] in up Less h' (length h' - 1))"

text \<open>
  \<open>heap.Pop\<close> swaps the root with the last element, sifts the new root down within the
  first \<open>n\<close> elements and removes the last element, which it returns. On an empty slice
  Go panics (index out of range); every call in the order book stands under the loop
  guard \<open>Len() > 0\<close>, and the result on \<open>[]\<close> is not used.
\<close>

definition heap_Pop :: "(addr list \<Rightarrow> nat \<Rightarrow> nat \<Rightarrow> bool) \<Rightarrow> addr list \<Rightarrow> addr \<times> addr list" where
  "heap_Pop Less h =
     (let n = length h - 1;
          h1 = Swap h 0 n;
          h2 = down Less h1 0 n
      in (last h2, butlast h2))"

section \<open>The order book (orderbook.go)\<close>

record OrderBook =
  symbol :: string
  bids :: BidHeap
  asks :: AskHeap

text \<open>A new book has two empty heaps; \<open>heap.Init\<close> on an empty heap does nothing.\<close>

definition NewOrderBook :: "string \<Rightarrow> OrderBook" where
  "NewOrderBook symb = \<lparr>symbol = symb, bids = [], asks = []\<rparr>"

text \<open>
  \<open>BestBid\<close> and \<open>BestAsk\<close>: the \<open>for\<close> loop breaks in its first round when the top is
  inactive, so it looks at the top entry only.
\<close>

definition BestBid :: "store \<Rightarrow> OrderBook \<Rightarrow> float64 \<times> bool" where
  "BestBid s ob =
     (if 0 < length (bids ob)
      then (let top = bids ob ! 0
            in if IsActive (s top) then (Price (s top), True) else (Finite 0, False))
      else (Finite 0, False))"

definition BestAsk :: "store \<Rightarrow> OrderBook \<Rightarrow> float64 \<times> bool" where
  "BestAsk s ob =
     (if 0 < length (asks ob)
      then (let top = asks ob ! 0
            in if IsActive (s top) then (Price (s top), True) else (Finite 0, False))
      else (Finite 0, False))"

definition min64 :: "64 word \<Rightarrow> 64 word \<Rightarrow> 64 word" where
  "min64 a b = (if a <s b then a else b)"

text \<open>
  The state of a matching loop: the store, the global trade counter, the opposite heap
  and the trades produced so far. One round of the loop either goes on (\<open>continue\<close> or
  the end of the body) or leaves the loop (\<open>break\<close>).
\<close>

type_synonym mstate = "store \<times> 64 word \<times> addr list \<times> Trade list"

datatype loop = Continue mstate | Break mstate

definition matchBuy_guard :: "addr \<Rightarrow> mstate \<Rightarrow> bool" where
  "matchBuy_guard incoming st =
     (case st of (s, seq, askh, trds) \<Rightarrow> 0 < length askh \<and> 0 <s Remaining (s incoming))"

definition matchBuy_body :: "string \<Rightarrow> addr \<Rightarrow> mstate \<Rightarrow> loop" where
  "matchBuy_body symb incoming st =
     (case st of (s, seq, askh, trds) \<Rightarrow>
        let bestAsk = askh ! 0
        in if \<not> IsActive (s bestAsk)
           then Continue (s, seq, snd (heap_Pop (AskHeap_Less s) askh), trds)
           else if Type (s incoming) = Limit \<and> f_lt (Price (s incoming)) (Price (s bestAsk))
           then Break (s, seq, askh, trds)
           else
             let qty = min64 (Remaining (s incoming)) (Remaining (s bestAsk));
                 execPrice = Price (s bestAsk);
                 (trade, seq') = newTrade seq symb (ID (s incoming)) (ID (s bestAsk))
                                   execPrice qty (Timestamp (s incoming));
                 trds1 = trds @ [trade];
                 s1 = s(incoming := (s incoming)\<lparr>Filled := Filled (s incoming) + qty\<rparr>);
                 s2 = s1(bestAsk := (s1 bestAsk)\<lparr>Filled := Filled (s1 bestAsk) + qty\<rparr>)
             in if IsFilled (s2 bestAsk)
                then (let s3 = s2(bestAsk := (s2 bestAsk)\<lparr>Status := StatusFilled\<rparr>)
                      in Continue (s3, seq', snd (heap_Pop (AskHeap_Less s3) askh), trds1))
                else Continue (s2(bestAsk := (s2 bestAsk)\<lparr>Status := StatusPartial\<rparr>),
                               seq', askh, trds1))"

definition matchSell_guard :: "addr \<Rightarrow> mstate \<Rightarrow> bool" where
  "matchSell_guard incoming st =
     (case st of (s, seq, bidh, trds) \<Rightarrow> 0 < length bidh \<and> 0 <s Remaining (s incoming))"

definition matchSell_body :: "string \<Rightarrow> addr \<Rightarrow> mstate \<Rightarrow> loop" where
  "matchSell_body symb incoming st =
     (case st of (s, seq, bidh, trds) \<Rightarrow>
        let bestBid = bidh ! 0
        in if \<not> IsActive (s bestBid)
           then Continue (s, seq, snd (heap_Pop (BidHeap_Less s) bidh), trds)
           else if Type (s incoming) = Limit \<and> f_gt (Price (s incoming)) (Price (s bestBid))
           then Break (s, seq, bidh, trds)
           else
             let qty = min64 (Remaining (s incoming)) (Remaining (s bestBid));
                 execPrice = Price (s bestBid);
                 (trade, seq') = newTrade seq symb (ID (s bestBid)) (ID (s incoming))
                                   execPrice qty (Timestamp (s incoming));
                 trds1 = trds @ [trade];
                 s1 = s(incoming := (s incoming)\<lparr>Filled := Filled (s incoming) + qty\<rparr>);
                 s2 = s1(bestBid := (s1 bestBid)\<lparr>Filled := Filled (s1 bestBid) + qty\<rparr>)
             in if IsFilled (s2 bestBid)
                then (let s3 = s2(bestBid := (s2 bestBid)\<lparr>Status := StatusFilled\<rparr>)
                      in Continue (s3, seq', snd (heap_Pop (BidHeap_Less s3) bidh), trds1))
                else Continue (s2(bestBid := (s2 bestBid)\<lparr>Status := StatusPartial\<rparr>),
                               seq', bidh, trds1))"


text \<open>
  The measure of the matching loops: the length of the opposite heap, and whether the
  incoming order still has something to fill.
\<close>

definition loop_measure :: "addr \<Rightarrow> mstate \<Rightarrow> nat" where
  "loop_measure incoming st =
     (case st of (s, seq, h, trds) \<Rightarrow>
        2 * length h + (if 0 <s Remaining (s incoming) then 1 else 0))"

lemma length_Swap [simp]: "length (Swap h i j) = length h"
  by (simp add: Swap_def)

lemma length_up [simp]: "length (up Less h j) = length h"
proof (induction Less h j rule: up.induct)
  case (1 Less h j)
  show ?case
    using 1 by (subst up.simps) (simp add: Let_def)
qed

lemma length_down [simp]: "length (down Less h i n) = length h"
proof (induction Less h i n rule: down.induct)
  case (1 Less h i n)
  show ?case
    using 1 by (subst down.simps) (simp add: Let_def)
qed

lemma length_heap_Pop [simp]: "length (snd (heap_Pop Less h)) = length h - 1"
  by (simp add: heap_Pop_def Let_def)

lemma length_heap_Push [simp]: "length (heap_Push Less h x) = Suc (length h)"
  by (simp add: heap_Push_def Let_def)

lemma sint_neg_of_pos: "0 <s (x :: 64 word) \<Longrightarrow> \<not> 0 <s - x"
proof -
  assume "0 <s x"
  then have pos: "0 < sint x" by (simp add: word_sless_alt)
  have "sint x < 2 ^ 63"
    using sint_lt [of x] by simp
  then have "- (2 ^ 63) \<le> - sint x" "- sint x < 2 ^ 63"
    using pos by linarith+
  then have "sint (- x) = - sint x"
    by (simp add: sint_word_minus signed_take_bit_int_eq_self)
  then show ?thesis using pos by (simp add: word_sless_alt)
qed


lemma matchBuy_body_inactive:
  "\<not> IsActive (s (h ! 0)) \<Longrightarrow>
   matchBuy_body symb a (s, seq, h, trds) = Continue (s, seq, snd (heap_Pop (AskHeap_Less s) h), trds)"
  by (simp add: matchBuy_body_def Let_def)

lemma matchBuy_body_gate:
  "IsActive (s (h ! 0)) \<Longrightarrow> Type (s a) = Limit \<and> f_lt (Price (s a)) (Price (s (h ! 0))) \<Longrightarrow>
   matchBuy_body symb a (s, seq, h, trds) = Break (s, seq, h, trds)"
  by (simp add: matchBuy_body_def Let_def)

text \<open>The store after the two \<open>Filled += qty\<close> of a trade between \<open>a\<close> and the top \<open>p\<close>.\<close>

definition fill2 :: "store \<Rightarrow> addr \<Rightarrow> addr \<Rightarrow> store" where
  "fill2 s a p =
     (let qty = min64 (Remaining (s a)) (Remaining (s p));
          s1 = s(a := (s a)\<lparr>Filled := Filled (s a) + qty\<rparr>)
      in s1(p := (s1 p)\<lparr>Filled := Filled (s1 p) + qty\<rparr>))"

lemma matchBuy_body_trade:
  assumes "IsActive (s (h ! 0))" and "\<not> (Type (s a) = Limit \<and> f_lt (Price (s a)) (Price (s (h ! 0))))"
  shows "matchBuy_body symb a (s, seq, h, trds) =
     (let p = h ! 0;
          s2 = fill2 s a p;
          t = \<lparr>Trade_ID = seq + 1, Trade_Symbol = symb, BuyOrderID = ID (s a),
               SellOrderID = ID (s p), Trade_Price = Price (s p),
               Trade_Quantity = min64 (Remaining (s a)) (Remaining (s p)),
               Trade_Timestamp = Timestamp (s a)\<rparr>
      in if IsFilled (s2 p)
         then Continue (s2(p := (s2 p)\<lparr>Status := StatusFilled\<rparr>), seq + 1,
                snd (heap_Pop (AskHeap_Less (s2(p := (s2 p)\<lparr>Status := StatusFilled\<rparr>))) h),
                trds @ [t])
         else Continue (s2(p := (s2 p)\<lparr>Status := StatusPartial\<rparr>), seq + 1, h, trds @ [t]))"
  using assms
  by (simp add: matchBuy_body_def Let_def fill2_def newTrade_def nextTradeID_def)

lemma fill2_unfilled_top:
  assumes "0 <s Remaining (s a)" and "\<not> IsFilled (fill2 s a p p)"
  shows "\<not> 0 <s Remaining (fill2 s a p a)"
proof (cases "a = p")
  case True
  have "\<not> 0 <s - Remaining (s a)"
    using assms(1) by (rule sint_neg_of_pos)
  then show ?thesis
    using True by (simp add: fill2_def Let_def min64_def Remaining_def)
next
  case False
  show ?thesis
  proof (cases "Remaining (s a) <s Remaining (s p)")
    case True
    then show ?thesis
      using False by (simp add: fill2_def Let_def min64_def Remaining_def)
  next
    case nlt: False
    have "IsFilled (fill2 s a p p)"
      using False nlt by (simp add: fill2_def Let_def min64_def Remaining_def IsFilled_def)
    with assms(2) show ?thesis by simp
  qed
qed

lemma matchBuy_body_decreases:
  assumes "matchBuy_guard incoming st" and "matchBuy_body symb incoming st = Continue st'"
  shows "loop_measure incoming st' < loop_measure incoming st"
proof -
  obtain s seq h trds where st: "st = (s, seq, h, trds)"
    by (cases st) auto
  from assms(1) st have len: "0 < length h" and rem: "0 <s Remaining (s incoming)"
    by (simp_all add: matchBuy_guard_def)
  have before: "loop_measure incoming st = 2 * length h + 1"
    using rem by (simp add: st loop_measure_def)
  show ?thesis
  proof (cases "IsActive (s (h ! 0))")
    case False
    then have "st' = (s, seq, snd (heap_Pop (AskHeap_Less s) h), trds)"
      using assms(2) by (simp add: st matchBuy_body_inactive)
    then have "loop_measure incoming st' \<le> 2 * (length h - 1) + 1"
      by (simp add: loop_measure_def)
    then show ?thesis
      using len before by arith
  next
    case act: True
    show ?thesis
    proof (cases "Type (s incoming) = Limit \<and> f_lt (Price (s incoming)) (Price (s (h ! 0)))")
      case True
      then show ?thesis
        using assms(2) act by (simp add: st matchBuy_body_gate)
    next
      case False
      note body = matchBuy_body_trade [OF act False, of symb seq trds]
      show ?thesis
      proof (cases "IsFilled (fill2 s incoming (h ! 0) (h ! 0))")
        case True
        then obtain s3 seq3 trds3 where
          "st' = (s3, seq3, snd (heap_Pop (AskHeap_Less s3) h), trds3)"
          using assms(2) body by (auto simp: st Let_def)
        then have "loop_measure incoming st' \<le> 2 * (length h - 1) + 1"
          by (simp add: loop_measure_def)
        then show ?thesis
          using len before by arith
      next
        case unfilled: False
        then have st': "st' = ((fill2 s incoming (h ! 0))
              (h ! 0 := (fill2 s incoming (h ! 0) (h ! 0))\<lparr>Status := StatusPartial\<rparr>),
            seq + 1, h,
            trds @ [\<lparr>Trade_ID = seq + 1, Trade_Symbol = symb, BuyOrderID = ID (s incoming),
               SellOrderID = ID (s (h ! 0)), Trade_Price = Price (s (h ! 0)),
               Trade_Quantity = min64 (Remaining (s incoming)) (Remaining (s (h ! 0))),
               Trade_Timestamp = Timestamp (s incoming)\<rparr>])"
          using assms(2) body by (simp add: st Let_def)
        have "\<not> 0 <s Remaining (fill2 s incoming (h ! 0) incoming)"
          using rem unfilled by (rule fill2_unfilled_top)
        then have "loop_measure incoming st' = 2 * length h"
          by (auto simp: st' loop_measure_def Remaining_def)
        then show ?thesis
          using before by simp
      qed
    qed
  qed
qed

lemma matchSell_body_inactive:
  "\<not> IsActive (s (h ! 0)) \<Longrightarrow>
   matchSell_body symb a (s, seq, h, trds) = Continue (s, seq, snd (heap_Pop (BidHeap_Less s) h), trds)"
  by (simp add: matchSell_body_def Let_def)

lemma matchSell_body_gate:
  "IsActive (s (h ! 0)) \<Longrightarrow> Type (s a) = Limit \<and> f_gt (Price (s a)) (Price (s (h ! 0))) \<Longrightarrow>
   matchSell_body symb a (s, seq, h, trds) = Break (s, seq, h, trds)"
  by (simp add: matchSell_body_def Let_def)

lemma matchSell_body_trade:
  assumes "IsActive (s (h ! 0))" and "\<not> (Type (s a) = Limit \<and> f_gt (Price (s a)) (Price (s (h ! 0))))"
  shows "matchSell_body symb a (s, seq, h, trds) =
     (let p = h ! 0;
          s2 = fill2 s a p;
          t = \<lparr>Trade_ID = seq + 1, Trade_Symbol = symb, BuyOrderID = ID (s p),
               SellOrderID = ID (s a), Trade_Price = Price (s p),
               Trade_Quantity = min64 (Remaining (s a)) (Remaining (s p)),
               Trade_Timestamp = Timestamp (s a)\<rparr>
      in if IsFilled (s2 p)
         then Continue (s2(p := (s2 p)\<lparr>Status := StatusFilled\<rparr>), seq + 1,
                snd (heap_Pop (BidHeap_Less (s2(p := (s2 p)\<lparr>Status := StatusFilled\<rparr>))) h),
                trds @ [t])
         else Continue (s2(p := (s2 p)\<lparr>Status := StatusPartial\<rparr>), seq + 1, h, trds @ [t]))"
  using assms
  by (simp add: matchSell_body_def Let_def fill2_def newTrade_def nextTradeID_def)

lemma matchSell_body_decreases:
  assumes "matchSell_guard incoming st" and "matchSell_body symb incoming st = Continue st'"
  shows "loop_measure incoming st' < loop_measure incoming st"
proof -
  obtain s seq h trds where st: "st = (s, seq, h, trds)"
    by (cases st) auto
  from assms(1) st have len: "0 < length h" and rem: "0 <s Remaining (s incoming)"
    by (simp_all add: matchSell_guard_def)
  have before: "loop_measure incoming st = 2 * length h + 1"
    using rem by (simp add: st loop_measure_def)
  show ?thesis
  proof (cases "IsActive (s (h ! 0))")
    case False
    then have "st' = (s, seq, snd (heap_Pop (BidHeap_Less s) h), trds)"
      using assms(2) by (simp add: st matchSell_body_inactive)
    then have "loop_measure incoming st' \<le> 2 * (length h - 1) + 1"
      by (simp add: loop_measure_def)
    then show ?thesis
      using len before by arith
  next
    case act: True
    show ?thesis
    proof (cases "Type (s incoming) = Limit \<and> f_gt (Price (s incoming)) (Price (s (h ! 0)))")
      case True
      then show ?thesis
        using assms(2) act by (simp add: st matchSell_body_gate)
    next
      case False
      note body = matchSell_body_trade [OF act False, of symb seq trds]
      show ?thesis
      proof (cases "IsFilled (fill2 s incoming (h ! 0) (h ! 0))")
        case True
        then obtain s3 seq3 trds3 where
          "st' = (s3, seq3, snd (heap_Pop (BidHeap_Less s3) h), trds3)"
          using assms(2) body by (auto simp: st Let_def)
        then have "loop_measure incoming st' \<le> 2 * (length h - 1) + 1"
          by (simp add: loop_measure_def)
        then show ?thesis
          using len before by arith
      next
        case unfilled: False
        then have st': "st' = ((fill2 s incoming (h ! 0))
              (h ! 0 := (fill2 s incoming (h ! 0) (h ! 0))\<lparr>Status := StatusPartial\<rparr>),
            seq + 1, h,
            trds @ [\<lparr>Trade_ID = seq + 1, Trade_Symbol = symb, BuyOrderID = ID (s (h ! 0)),
               SellOrderID = ID (s incoming), Trade_Price = Price (s (h ! 0)),
               Trade_Quantity = min64 (Remaining (s incoming)) (Remaining (s (h ! 0))),
               Trade_Timestamp = Timestamp (s incoming)\<rparr>])"
          using assms(2) body by (simp add: st Let_def)
        have "\<not> 0 <s Remaining (fill2 s incoming (h ! 0) incoming)"
          using rem unfilled by (rule fill2_unfilled_top)
        then have "loop_measure incoming st' = 2 * length h"
          by (auto simp: st' loop_measure_def Remaining_def)
        then show ?thesis
          using before by simp
      qed
    qed
  qed
qed

function matchBuy_loop :: "string \<Rightarrow> addr \<Rightarrow> mstate \<Rightarrow> mstate" where
  "matchBuy_loop symb incoming st =
     (if matchBuy_guard incoming st
      then (case matchBuy_body symb incoming st of
              Continue st' \<Rightarrow> matchBuy_loop symb incoming st'
            | Break st' \<Rightarrow> st')
      else st)"
  by pat_completeness auto
termination
proof (relation "measure (\<lambda>(symb, incoming, st). loop_measure incoming st)")
  show "wf (measure (\<lambda>(symb, incoming, st). loop_measure incoming st))"
    by simp
next
  fix symb :: string and incoming :: addr and st st' :: mstate
  assume "matchBuy_guard incoming st" and "matchBuy_body symb incoming st = Continue st'"
  then have "loop_measure incoming st' < loop_measure incoming st"
    by (rule matchBuy_body_decreases)
  then show "((symb, incoming, st'), (symb, incoming, st))
      \<in> measure (\<lambda>(symb, incoming, st). loop_measure incoming st)"
    by simp
qed

declare matchBuy_loop.simps [simp del]

function matchSell_loop :: "string \<Rightarrow> addr \<Rightarrow> mstate \<Rightarrow> mstate" where
  "matchSell_loop symb incoming st =
     (if matchSell_guard incoming st
      then (case matchSell_body symb incoming st of
              Continue st' \<Rightarrow> matchSell_loop symb incoming st'
            | Break st' \<Rightarrow> st')
      else st)"
  by pat_completeness auto
termination
proof (relation "measure (\<lambda>(symb, incoming, st). loop_measure incoming st)")
  show "wf (measure (\<lambda>(symb, incoming, st). loop_measure incoming st))"
    by simp
next
  fix symb :: string and incoming :: addr and st st' :: mstate
  assume "matchSell_guard incoming st" and "matchSell_body symb incoming st = Continue st'"
  then have "loop_measure incoming st' < loop_measure incoming st"
    by (rule matchSell_body_decreases)
  then show "((symb, incoming, st'), (symb, incoming, st))
      \<in> measure (\<lambda>(symb, incoming, st). loop_measure incoming st)"
    by simp
qed

declare matchSell_loop.simps [simp del]

text \<open>
  \<open>finalizeOrder\<close> receives the incoming order's own side as a \<open>heap.Interface\<close>: its
  \<open>Less\<close> method and its slice. The \<open>switch\<close> takes the first case that holds, and none
  when no case holds.
\<close>

definition finalizeOrder ::
  "(store \<Rightarrow> addr list \<Rightarrow> nat \<Rightarrow> nat \<Rightarrow> bool) \<Rightarrow> store \<Rightarrow> addr \<Rightarrow> addr list \<Rightarrow> store \<times> addr list" where
  "finalizeOrder Less s a book =
     (if IsFilled (s a) then (s(a := (s a)\<lparr>Status := StatusFilled\<rparr>), book)
      else if Type (s a) = IOC then (s(a := (s a)\<lparr>Status := StatusCancelled\<rparr>), book)
      else if Type (s a) = Market \<and> 0 <s Remaining (s a)
      then (s(a := (s a)\<lparr>Status := StatusCancelled\<rparr>), book)
      else if Type (s a) = Limit \<and> 0 <s Remaining (s a)
      then (let s' = (if 0 <s Filled (s a) then s(a := (s a)\<lparr>Status := StatusPartial\<rparr>) else s)
            in (s', heap_Push (Less s') book a))
      else (s, book))"

definition matchBuy :: "store \<Rightarrow> 64 word \<Rightarrow> OrderBook \<Rightarrow> addr \<Rightarrow> Trade list \<times> store \<times> 64 word \<times> OrderBook" where
  "matchBuy s seq ob incoming =
     (case matchBuy_loop (symbol ob) incoming (s, seq, asks ob, []) of
        (s1, seq1, asks1, trds) \<Rightarrow>
          (case finalizeOrder BidHeap_Less s1 incoming (bids ob) of
             (s2, bids2) \<Rightarrow> (trds, s2, seq1, ob\<lparr>bids := bids2, asks := asks1\<rparr>)))"

definition matchSell :: "store \<Rightarrow> 64 word \<Rightarrow> OrderBook \<Rightarrow> addr \<Rightarrow> Trade list \<times> store \<times> 64 word \<times> OrderBook" where
  "matchSell s seq ob incoming =
     (case matchSell_loop (symbol ob) incoming (s, seq, bids ob, []) of
        (s1, seq1, bids1, trds) \<Rightarrow>
          (case finalizeOrder AskHeap_Less s1 incoming (asks ob) of
             (s2, asks2) \<Rightarrow> (trds, s2, seq1, ob\<lparr>bids := bids1, asks := asks2\<rparr>)))"

text \<open>\<open>match\<close>: a side that is neither \<open>Buy\<close> nor \<open>Sell\<close> falls through the \<open>switch\<close>.\<close>

definition ob_match :: "store \<Rightarrow> 64 word \<Rightarrow> OrderBook \<Rightarrow> addr \<Rightarrow> Trade list \<times> store \<times> 64 word \<times> OrderBook" where
  "ob_match s seq ob incoming =
     (if Side (s incoming) = Buy then matchBuy s seq ob incoming
      else if Side (s incoming) = Sell then matchSell s seq ob incoming
      else ([], s, seq, ob))"

definition ob_Submit :: "store \<Rightarrow> 64 word \<Rightarrow> OrderBook \<Rightarrow> addr \<Rightarrow> Trade list \<times> store \<times> 64 word \<times> OrderBook" where
  "ob_Submit s seq ob incoming = ob_match s seq ob incoming"

text \<open>
  \<open>Cancel\<close> ranges over the bids, then over the asks, and stops at the first order with
  the id that is active. It writes to that order only; the heaps are read.
\<close>

fun cancel_scan :: "store \<Rightarrow> 64 word \<Rightarrow> addr list \<Rightarrow> addr option" where
  "cancel_scan s orderID [] = None"
| "cancel_scan s orderID (a # h) =
     (if ID (s a) = orderID \<and> IsActive (s a) then Some a else cancel_scan s orderID h)"

definition ob_Cancel :: "store \<Rightarrow> OrderBook \<Rightarrow> 64 word \<Rightarrow> bool \<times> store" where
  "ob_Cancel s ob orderID =
     (case cancel_scan s orderID (bids ob) of
        Some a \<Rightarrow> (True, s(a := (s a)\<lparr>Status := StatusCancelled\<rparr>))
      | None \<Rightarrow>
          (case cancel_scan s orderID (asks ob) of
             Some a \<Rightarrow> (True, s(a := (s a)\<lparr>Status := StatusCancelled\<rparr>))
           | None \<Rightarrow> (False, s)))"

section \<open>The gateway (gateway.go)\<close>

text \<open>
  A \<open>ValidationError\<close> carries the field and a message; the message is a formatted
  string in the source, here the kind of message with the value it prints.
\<close>

datatype ValidationMessage =
    OrdreNil
  | SymboleVide
  | CoteInvalide Side
  | TypeInvalide OrderType
  | QuantiteInvalide "64 word"
  | PrixLimiteInvalide float64
  | PrixAnormal float64

record ValidationError =
  Field :: string
  Message :: ValidationMessage

definition validateOrder :: "store \<Rightarrow> addr option \<Rightarrow> ValidationError option" where
  "validateOrder s p =
     (case p of
        None \<Rightarrow> Some \<lparr>Field = ''order'', Message = OrdreNil\<rparr>
      | Some a \<Rightarrow>
          if Symbol (s a) = [] then Some \<lparr>Field = ''symbol'', Message = SymboleVide\<rparr>
          else if Side (s a) \<noteq> Buy \<and> Side (s a) \<noteq> Sell
          then Some \<lparr>Field = ''side'', Message = CoteInvalide (Side (s a))\<rparr>
          else if Type (s a) \<noteq> Limit \<and> Type (s a) \<noteq> Market \<and> Type (s a) \<noteq> IOC
          then Some \<lparr>Field = ''type'', Message = TypeInvalide (Type (s a))\<rparr>
          else if Quantity (s a) \<le>s 0
          then Some \<lparr>Field = ''quantity'', Message = QuantiteInvalide (Quantity (s a))\<rparr>
          else if Type (s a) = Limit \<and> f_le (Price (s a)) (Finite 0)
          then Some \<lparr>Field = ''price'', Message = PrixLimiteInvalide (Price (s a))\<rparr>
          else if Type (s a) = Limit \<and> f_gt (Price (s a)) (Finite 1000000)
          then Some \<lparr>Field = ''price'', Message = PrixAnormal (Price (s a))\<rparr>
          else None)"

text \<open>
  The errors of the gateway, and the runtime panic of a nil dereference:
  \<open>OrderRejected\<close> is \<open>"ordre #%d rejete: %w"\<close> around a validation error,
  \<open>SymbolNotSupported\<close> is \<open>"ordre #%d rejete: symbole %q non supporte"\<close>,
  \<open>CancelSymbolNotSupported\<close> is \<open>"symbole %q non supporte"\<close> and
  \<open>OrderNotFound\<close> is \<open>"ordre #%d non trouve ou deja inactif"\<close>.
\<close>

datatype error =
    NilPointerDereference
  | OrderRejected "64 word" ValidationError
  | SymbolNotSupported "64 word" string
  | CancelSymbolNotSupported string
  | OrderNotFound "64 word"

text \<open>
  The state of the process: the memory of orders, the global trade counter, and the
  gateway's two fields, the books by symbol and the (possibly nil) trade log.
\<close>

record state =
  store :: store
  globalTradeSeq :: "64 word"
  books :: "string \<rightharpoonup> OrderBook"
  tradelog :: "TradeLog option"

definition NewGateway :: "store \<Rightarrow> 64 word \<Rightarrow> string list \<Rightarrow> TradeLog option \<Rightarrow> state" where
  "NewGateway s seq symbols lg =
     \<lparr>store = s, globalTradeSeq = seq,
      books = foldl (\<lambda>m x. m(x \<mapsto> NewOrderBook x)) Map.empty symbols,
      tradelog = lg\<rparr>"

definition reject :: "state \<Rightarrow> addr \<Rightarrow> state" where
  "reject w a = w\<lparr>store := (store w)(a := (store w a)\<lparr>Status := StatusRejected\<rparr>)\<rparr>"

text \<open>
  \<open>Gateway.Submit\<close>. After a failed validation the order is written to and read
  (\<open>o.Status = StatusRejected\<close>, \<open>o.ID\<close>): with a nil order this is a nil pointer
  dereference, a panic that ends the call.
\<close>

definition gw_Submit :: "state \<Rightarrow> addr option \<Rightarrow> (error + Trade list) \<times> state" where
  "gw_Submit w p =
     (case validateOrder (store w) p of
        Some err \<Rightarrow>
          (case p of
             None \<Rightarrow> (Inl NilPointerDereference, w)
           | Some a \<Rightarrow> (Inl (OrderRejected (ID (store w a)) err), reject w a))
      | None \<Rightarrow>
          (case p of
             None \<Rightarrow> (Inl NilPointerDereference, w)
           | Some a \<Rightarrow>
               (case books w (Symbol (store w a)) of
                  None \<Rightarrow>
                    (Inl (SymbolNotSupported (ID (store w a)) (Symbol (store w a))), reject w a)
                | Some book \<Rightarrow>
                    (case ob_Submit (store w) (globalTradeSeq w) book a of
                       (trds, s', seq', book') \<Rightarrow>
                         (Inr trds,
                          w\<lparr>store := s', globalTradeSeq := seq',
                            books := (books w)(Symbol (store w a) \<mapsto> book'),
                            tradelog := (case tradelog w of
                                           None \<Rightarrow> None
                                         | Some lg \<Rightarrow> Some (AddAll lg trds))\<rparr>)))))"

definition gw_Cancel :: "state \<Rightarrow> string \<Rightarrow> 64 word \<Rightarrow> error option \<times> state" where
  "gw_Cancel w symb orderID =
     (case books w symb of
        None \<Rightarrow> (Some (CancelSymbolNotSupported symb), w)
      | Some book \<Rightarrow>
          (case ob_Cancel (store w) book orderID of
             (ok, s') \<Rightarrow>
               if \<not> ok then (Some (OrderNotFound orderID), w\<lparr>store := s'\<rparr>)
               else (None, w\<lparr>store := s'\<rparr>)))"

definition Book :: "state \<Rightarrow> string \<Rightarrow> OrderBook option" where
  "Book w symb = books w symb"

text \<open>
  The reachable states: a fresh gateway over any memory of orders (whatever the callers
  have built), then gateway submits of any pointer and cancels of any id, in any order.
  The callers keep their pointers and may submit the same order again; between the calls
  they do not write to an order.
\<close>

inductive reachable :: "state \<Rightarrow> bool" where
  reachable_init: "w = NewGateway s seq symbols lg \<Longrightarrow> reachable w"
| reachable_Submit: "reachable w \<Longrightarrow> gw_Submit w p = (r, w') \<Longrightarrow> reachable w'"
| reachable_Cancel: "reachable w \<Longrightarrow> gw_Cancel w symb orderID = (e, w') \<Longrightarrow> reachable w'"

text \<open>
  Validation lets a LIMIT order with a NaN price through (both price tests are false on
  NaN). The states reached without such a submit: every order submitted is not a LIMIT
  order, or its price is a number or an infinity.
\<close>

definition nan_limit :: "store \<Rightarrow> addr option \<Rightarrow> bool" where
  "nan_limit s p = (case p of None \<Rightarrow> False | Some a \<Rightarrow> Type (s a) = Limit \<and> Price (s a) = NaN)"

inductive reachable_numeric :: "state \<Rightarrow> bool" where
  numeric_init: "w = NewGateway s seq symbols lg \<Longrightarrow> reachable_numeric w"
| numeric_Submit: "reachable_numeric w \<Longrightarrow> \<not> nan_limit (store w) p \<Longrightarrow> gw_Submit w p = (r, w') \<Longrightarrow>
     reachable_numeric w'"
| numeric_Cancel: "reachable_numeric w \<Longrightarrow> gw_Cancel w symb orderID = (e, w') \<Longrightarrow> reachable_numeric w'"

section \<open>Properties of heaps, loops and books\<close>

text \<open>
  The heap property of a slice under a strict weak order \<open>lt\<close> on its elements: no
  element comes before its parent. \<open>heap_upto\<close> states it for the first \<open>n\<close> elements,
  as \<open>down\<close> needs it.
\<close>

definition strict_weak :: "(addr \<Rightarrow> addr \<Rightarrow> bool) \<Rightarrow> bool" where
  "strict_weak lt \<longleftrightarrow>
     (\<forall>x. \<not> lt x x) \<and> (\<forall>x y z. lt x y \<longrightarrow> lt y z \<longrightarrow> lt x z) \<and>
     (\<forall>x y z. \<not> lt x y \<longrightarrow> \<not> lt y z \<longrightarrow> \<not> lt x z)"

definition heap_upto :: "(addr \<Rightarrow> addr \<Rightarrow> bool) \<Rightarrow> addr list \<Rightarrow> nat \<Rightarrow> bool" where
  "heap_upto lt h n \<longleftrightarrow> (\<forall>k. 0 < k \<and> k < n \<longrightarrow> \<not> lt (h ! k) (h ! ((k - 1) div 2)))"

definition is_heap :: "(addr \<Rightarrow> addr \<Rightarrow> bool) \<Rightarrow> addr list \<Rightarrow> bool" where
  "is_heap lt h \<longleftrightarrow> heap_upto lt h (length h)"

text \<open>
  The order that the two \<open>Less\<close> methods put on the orders themselves, and the relation
  between two memories that differ by fills and status changes only: matching and cancel
  write no other field.
\<close>

definition ask_before :: "store \<Rightarrow> addr \<Rightarrow> addr \<Rightarrow> bool" where
  "ask_before s x y =
     (if f_ne (Price (s x)) (Price (s y)) then f_lt (Price (s x)) (Price (s y))
      else Timestamp (s x) <s Timestamp (s y))"

definition bid_before :: "store \<Rightarrow> addr \<Rightarrow> addr \<Rightarrow> bool" where
  "bid_before s x y =
     (if f_ne (Price (s x)) (Price (s y)) then f_gt (Price (s x)) (Price (s y))
      else Timestamp (s x) <s Timestamp (s y))"

text \<open>
  With a NaN price the two \<open>Less\<close> methods are no order: a NaN-priced entry is neither
  before nor after any entry with another price. A side of the book is in order when none
  of its entries has a NaN price and it is a heap under its \<open>Less\<close>. \<open>numeric_store\<close> gives the
  NaN-priced orders a number as price and changes no other order; under it the two
  \<open>Less\<close> methods are strict weak orders on all orders.
\<close>

definition numeric :: "store \<Rightarrow> addr list \<Rightarrow> bool" where
  "numeric s h \<longleftrightarrow> (\<forall>x \<in> set h. Price (s x) \<noteq> NaN)"

definition ask_heap :: "store \<Rightarrow> addr list \<Rightarrow> bool" where
  "ask_heap s h \<longleftrightarrow> numeric s h \<and> is_heap (ask_before s) h"

definition bid_heap :: "store \<Rightarrow> addr list \<Rightarrow> bool" where
  "bid_heap s h \<longleftrightarrow> numeric s h \<and> is_heap (bid_before s) h"

definition numeric_store :: "store \<Rightarrow> store" where
  "numeric_store s = (\<lambda>x. if Price (s x) = NaN then (s x)\<lparr>Price := Finite 0\<rparr> else s x)"

definition fills_only :: "store \<Rightarrow> store \<Rightarrow> bool" where
  "fills_only s s' \<longleftrightarrow> (\<forall>a. s' a = (s a)\<lparr>Filled := Filled (s' a), Status := Status (s' a)\<rparr>)"

definition store_of :: "mstate \<Rightarrow> store" where
  "store_of st = fst st"

definition heap_of :: "mstate \<Rightarrow> addr list" where
  "heap_of st = fst (snd (snd st))"

definition trades_of :: "mstate \<Rightarrow> Trade list" where
  "trades_of st = snd (snd (snd st))"

text \<open>
  What one round of a matching loop does to the state: fills and status changes only, no
  new entry in the opposite heap, a heap that was in order kept in order, and at most one
  trade, at the price of the top of the heap and with its id as counterparty.
\<close>

definition buy_round :: "addr \<Rightarrow> mstate \<Rightarrow> mstate \<Rightarrow> bool" where
  "buy_round a st st' \<longleftrightarrow>
     fills_only (store_of st) (store_of st') \<and>
     set (heap_of st') \<subseteq> set (heap_of st) \<and>
     (ask_heap (store_of st) (heap_of st) \<longrightarrow>
        ask_heap (store_of st') (heap_of st')) \<and>
     (trades_of st' = trades_of st \<or>
      (\<exists>t. trades_of st' = trades_of st @ [t] \<and>
           Trade_Price t = Price (store_of st (heap_of st ! 0)) \<and>
           SellOrderID t = ID (store_of st (heap_of st ! 0)) \<and>
           BuyOrderID t = ID (store_of st a)))"

definition sell_round :: "addr \<Rightarrow> mstate \<Rightarrow> mstate \<Rightarrow> bool" where
  "sell_round a st st' \<longleftrightarrow>
     fills_only (store_of st) (store_of st') \<and>
     set (heap_of st') \<subseteq> set (heap_of st) \<and>
     (bid_heap (store_of st) (heap_of st) \<longrightarrow>
        bid_heap (store_of st') (heap_of st')) \<and>
     (trades_of st' = trades_of st \<or>
      (\<exists>t. trades_of st' = trades_of st @ [t] \<and>
           Trade_Price t = Price (store_of st (heap_of st ! 0)) \<and>
           BuyOrderID t = ID (store_of st (heap_of st ! 0)) \<and>
           SellOrderID t = ID (store_of st a)))"

text \<open>
  What a whole run of a matching loop does: the same, and moreover, when the opposite heap
  was in order, an incoming order that still has a remainder is a LIMIT order priced
  strictly on its own side of all that is left of it; an order that is not LIMIT stops only
  when the opposite heap is empty or it has no remainder.
\<close>

definition buy_run :: "addr \<Rightarrow> mstate \<Rightarrow> mstate \<Rightarrow> bool" where
  "buy_run a st st' \<longleftrightarrow>
     fills_only (store_of st) (store_of st') \<and>
     set (heap_of st') \<subseteq> set (heap_of st) \<and>
     (ask_heap (store_of st) (heap_of st) \<longrightarrow>
        ask_heap (store_of st') (heap_of st') \<and>
        (0 <s Remaining (store_of st' a) \<longrightarrow>
           (\<forall>x \<in> set (heap_of st').
              Type (store_of st' a) = Limit \<and> f_lt (Price (store_of st' a)) (Price (store_of st' x))))) \<and>
     (Type (store_of st a) \<noteq> Limit \<longrightarrow>
        heap_of st' = [] \<or> \<not> 0 <s Remaining (store_of st' a)) \<and>
     (\<exists>new. trades_of st' = trades_of st @ new \<and>
        (\<forall>t \<in> set new. \<exists>p \<in> set (heap_of st).
           Trade_Price t = Price (store_of st p) \<and> SellOrderID t = ID (store_of st p) \<and>
           BuyOrderID t = ID (store_of st a)))"

definition sell_run :: "addr \<Rightarrow> mstate \<Rightarrow> mstate \<Rightarrow> bool" where
  "sell_run a st st' \<longleftrightarrow>
     fills_only (store_of st) (store_of st') \<and>
     set (heap_of st') \<subseteq> set (heap_of st) \<and>
     (bid_heap (store_of st) (heap_of st) \<longrightarrow>
        bid_heap (store_of st') (heap_of st') \<and>
        (0 <s Remaining (store_of st' a) \<longrightarrow>
           (\<forall>x \<in> set (heap_of st').
              Type (store_of st' a) = Limit \<and> f_lt (Price (store_of st' x)) (Price (store_of st' a))))) \<and>
     (Type (store_of st a) \<noteq> Limit \<longrightarrow>
        heap_of st' = [] \<or> \<not> 0 <s Remaining (store_of st' a)) \<and>
     (\<exists>new. trades_of st' = trades_of st @ new \<and>
        (\<forall>t \<in> set new. \<exists>p \<in> set (heap_of st).
           Trade_Price t = Price (store_of st p) \<and> BuyOrderID t = ID (store_of st p) \<and>
           SellOrderID t = ID (store_of st a)))"

text \<open>
  The invariant of a book: each side is in order (no NaN price, and a heap under its
  \<open>Less\<close>) and holds orders of its own side only, and every bid in the book is priced below
  every ask in it (active or not).
\<close>

definition book_ok :: "store \<Rightarrow> OrderBook \<Rightarrow> bool" where
  "book_ok s ob \<longleftrightarrow>
     bid_heap s (bids ob) \<and> ask_heap s (asks ob) \<and>
     (\<forall>b \<in> set (bids ob). Side (s b) = Buy) \<and>
     (\<forall>a \<in> set (asks ob). Side (s a) = Sell) \<and>
     (\<forall>b \<in> set (bids ob). \<forall>a \<in> set (asks ob). f_lt (Price (s b)) (Price (s a)))"

definition books_ok :: "state \<Rightarrow> bool" where
  "books_ok w \<longleftrightarrow> (\<forall>symb ob. books w symb = Some ob \<longrightarrow> book_ok (store w) ob)"

text \<open>
  The states at the head of a matching loop in its run from \<open>st0\<close>, and the order that a
  round of the loop selects: the top of the opposite heap, when the loop goes on, the top
  is active and the price gate lets the incoming order through. The round then trades
  against it.
\<close>

inductive matchBuy_at :: "string \<Rightarrow> addr \<Rightarrow> mstate \<Rightarrow> mstate \<Rightarrow> bool"
  for symb :: string and a :: addr and st0 :: mstate where
  buy_at_start: "matchBuy_at symb a st0 st0"
| buy_at_next: "matchBuy_at symb a st0 st \<Longrightarrow> matchBuy_guard a st \<Longrightarrow>
     matchBuy_body symb a st = Continue st' \<Longrightarrow> matchBuy_at symb a st0 st'"

inductive matchSell_at :: "string \<Rightarrow> addr \<Rightarrow> mstate \<Rightarrow> mstate \<Rightarrow> bool"
  for symb :: string and a :: addr and st0 :: mstate where
  sell_at_start: "matchSell_at symb a st0 st0"
| sell_at_next: "matchSell_at symb a st0 st \<Longrightarrow> matchSell_guard a st \<Longrightarrow>
     matchSell_body symb a st = Continue st' \<Longrightarrow> matchSell_at symb a st0 st'"

definition matchBuy_selects :: "addr \<Rightarrow> mstate \<Rightarrow> addr \<Rightarrow> bool" where
  "matchBuy_selects a st p \<longleftrightarrow>
     matchBuy_guard a st \<and> p = heap_of st ! 0 \<and> IsActive (store_of st p) \<and>
     \<not> (Type (store_of st a) = Limit \<and> f_lt (Price (store_of st a)) (Price (store_of st p)))"

definition matchSell_selects :: "addr \<Rightarrow> mstate \<Rightarrow> addr \<Rightarrow> bool" where
  "matchSell_selects a st p \<longleftrightarrow>
     matchSell_guard a st \<and> p = heap_of st ! 0 \<and> IsActive (store_of st p) \<and>
     \<not> (Type (store_of st a) = Limit \<and> f_gt (Price (store_of st a)) (Price (store_of st p)))"

section \<open>The validation table, in the order the gateway applies it\<close>

text \<open>
  The rules of the specification's validation table as a list of checks with the failure
  kind of each, in the order in which \<open>Gateway.Submit\<close> reaches them for a non-nil
  order: the field rules of \<open>validateOrder\<close> first, the registered-symbol rule last.
  \<open>failure_of\<close> reads the field and the failure kind off an error of the gateway.
\<close>

datatype failure_kind =
  malformed | empty_field | unknown_symbol | invalid_enum | invalid_range | out_of_bounds

definition failure_of :: "error \<Rightarrow> (string \<times> failure_kind) option" where
  "failure_of e =
     (case e of
        OrderRejected i ve \<Rightarrow>
          Some (Field ve,
                case Message ve of
                  OrdreNil \<Rightarrow> malformed
                | SymboleVide \<Rightarrow> empty_field
                | CoteInvalide x \<Rightarrow> invalid_enum
                | TypeInvalide x \<Rightarrow> invalid_enum
                | QuantiteInvalide q \<Rightarrow> invalid_range
                | PrixLimiteInvalide p \<Rightarrow> invalid_range
                | PrixAnormal p \<Rightarrow> out_of_bounds)
      | SymbolNotSupported i x \<Rightarrow> Some (''symbol'', unknown_symbol)
      | NilPointerDereference \<Rightarrow> None
      | CancelSymbolNotSupported x \<Rightarrow> None
      | OrderNotFound i \<Rightarrow> None)"

definition checks_in_order :: "state \<Rightarrow> ((string \<times> failure_kind) \<times> (Order \<Rightarrow> bool)) list" where
  "checks_in_order w =
     [((''symbol'', empty_field), \<lambda>x. Symbol x \<noteq> []),
      ((''side'', invalid_enum), \<lambda>x. Side x = Buy \<or> Side x = Sell),
      ((''type'', invalid_enum), \<lambda>x. Type x = Limit \<or> Type x = Market \<or> Type x = IOC),
      ((''quantity'', invalid_range), \<lambda>x. 0 <s Quantity x),
      ((''price'', invalid_range), \<lambda>x. if Type x = Limit then f_gt (Price x) (Finite 0) else True),
      ((''price'', out_of_bounds), \<lambda>x. if Type x = Limit then f_le (Price x) (Finite 1000000) else True),
      ((''symbol'', unknown_symbol), \<lambda>x. books w (Symbol x) \<noteq> None)]"

definition first_failure ::
  "((string \<times> failure_kind) \<times> (Order \<Rightarrow> bool)) list \<Rightarrow> Order \<Rightarrow> (string \<times> failure_kind) option" where
  "first_failure rules x = map_option fst (find (\<lambda>(k, holds). \<not> holds x) rules)"

section \<open>Example states\<close>

text \<open>
  An order for an unregistered symbol with quantity zero; and a book with one resting bid
  (\<open>#1\<close>, at address 1) and one resting ask (\<open>#2\<close>, at every other address).
\<close>

definition goog_zero_qty :: store where
  "goog_zero_qty = (\<lambda>a. NewLimitOrder 1 1000 ''GOOG'' Buy (Finite 150) 0)"

definition two_resting :: store where
  "two_resting = (\<lambda>a. NewLimitOrder 2 2000 ''AAPL'' Sell (Finite 190) 100)
     (1 := NewLimitOrder 1 1000 ''AAPL'' Buy (Finite 189) 100)"

definition two_resting_book :: OrderBook where
  "two_resting_book = \<lparr>symbol = ''AAPL'', bids = [1], asks = [2]\<rparr>"

definition two_resting_state :: state where
  "two_resting_state =
     \<lparr>store = two_resting, globalTradeSeq = 0, books = [''AAPL'' \<mapsto> two_resting_book],
      tradelog = Some NewTradeLog\<rparr>"

text \<open>
  A fresh gateway over the two orders above, as the test of the spread builds it; the state
  after submitting the orders at addresses 1 and 2 in turn; and two bids at 100 and 99.
\<close>

definition spread_state :: state where
  "spread_state = NewGateway two_resting 0 [''AAPL'', ''MSFT''] (Some NewTradeLog)"

definition after_two :: "state \<Rightarrow> state" where
  "after_two w = snd (gw_Submit (snd (gw_Submit w (Some 1))) (Some 2))"

definition two_bids :: store where
  "two_bids = (\<lambda>a. NewLimitOrder 2 2000 ''AAPL'' Buy (Finite 99) 100)
     (1 := NewLimitOrder 1 1000 ''AAPL'' Buy (Finite 100) 100)"

definition two_bids_state :: state where
  "two_bids_state = NewGateway two_bids 0 [''AAPL'', ''MSFT''] (Some NewTradeLog)"

text \<open>
  A resting sell at 189.00 met by a buy at 189.50 (the full-match test); an IOC buy with
  limit 100 arriving on a resting sell at 190; a bid that rests, is cancelled and is
  discarded from the heap by the next sell; and an order that is already filled.
\<close>

definition crossing_pair :: store where
  "crossing_pair = (\<lambda>a. NewLimitOrder 2 2000 ''AAPL'' Buy (Finite 189.5) 100)
     (1 := NewLimitOrder 1 1000 ''AAPL'' Sell (Finite 189) 100)"

definition crossing_state :: state where
  "crossing_state =
     snd (gw_Submit (NewGateway crossing_pair 0 [''AAPL'', ''MSFT''] (Some NewTradeLog)) (Some 1))"

definition ioc_below_ask :: store where
  "ioc_below_ask = (\<lambda>a. \<lparr>ID = 2, Symbol = ''AAPL'', Side = Buy, Type = IOC, Status = StatusOpen,
        Price = Finite 100, Quantity = 100, Filled = 0, Timestamp = 2000\<rparr>)
     (1 := NewLimitOrder 1 1000 ''AAPL'' Sell (Finite 190) 50)"

definition ioc_state :: state where
  "ioc_state =
     snd (gw_Submit (NewGateway ioc_below_ask 0 [''AAPL'', ''MSFT''] (Some NewTradeLog)) (Some 1))"

definition resting_then_cancelled :: store where
  "resting_then_cancelled = (\<lambda>a. NewLimitOrder 2 2000 ''AAPL'' Sell (Finite 190) 100)
     (1 := NewLimitOrder 1 1000 ''AAPL'' Buy (Finite 190) 100)"

definition cancelled_state :: state where
  "cancelled_state =
     snd (gw_Submit
       (snd (gw_Cancel
          (snd (gw_Submit (NewGateway resting_then_cancelled 0 [''AAPL'', ''MSFT''] (Some NewTradeLog))
             (Some 1)))
          ''AAPL'' 1))
       (Some 2))"

definition filled_order :: store where
  "filled_order = (\<lambda>a. (NewLimitOrder 1 1000 ''AAPL'' Buy (Finite 190) 100)
     \<lparr>Filled := 100, Status := StatusFilled\<rparr>)"

text \<open>
  Two asks at the same price that arrive one after the other (the FIFO test), and two asks
  at the same price with the same timestamp; a buy at that price waits at every other
  address.
\<close>

definition fifo_asks :: store where
  "fifo_asks = (\<lambda>a. NewLimitOrder 3 3000 ''AAPL'' Buy (Finite 190) 100)
     (1 := NewLimitOrder 1 1000 ''AAPL'' Sell (Finite 190) 100,
      2 := NewLimitOrder 2 2000 ''AAPL'' Sell (Finite 190) 100)"

definition same_time_asks :: store where
  "same_time_asks = (\<lambda>a. NewLimitOrder 3 3000 ''AAPL'' Buy (Finite 190) 100)
     (1 := NewLimitOrder 1 1000 ''AAPL'' Sell (Finite 190) 100,
      2 := NewLimitOrder 2 1000 ''AAPL'' Sell (Finite 190) 100)"

definition fifo_state :: state where
  "fifo_state = after_two (NewGateway fifo_asks 0 [''AAPL'', ''MSFT''] (Some NewTradeLog))"

definition same_time_state :: state where
  "same_time_state = after_two (NewGateway same_time_asks 0 [''AAPL'', ''MSFT''] (Some NewTradeLog))"

text \<open>
  Four bids at 70, NaN, 60 and 80 and two asks at 75 and 70 (at every other address), all
  LIMIT orders for 100, and the states after submitting the first four, five and six of
  them in turn to a fresh gateway.
\<close>

definition nan_orders :: store where
  "nan_orders = (\<lambda>a. NewLimitOrder 6 6000 ''AAPL'' Sell (Finite 70) 100)
     (1 := NewLimitOrder 1 1000 ''AAPL'' Buy (Finite 70) 100,
      2 := NewLimitOrder 2 2000 ''AAPL'' Buy NaN 100,
      3 := NewLimitOrder 3 3000 ''AAPL'' Buy (Finite 60) 100,
      4 := NewLimitOrder 4 4000 ''AAPL'' Buy (Finite 80) 100,
      5 := NewLimitOrder 5 5000 ''AAPL'' Sell (Finite 75) 100)"

definition submit_all :: "state \<Rightarrow> addr list \<Rightarrow> state" where
  "submit_all w ps = foldl (\<lambda>w a. snd (gw_Submit w (Some a))) w ps"

definition nan_state4 :: state where
  "nan_state4 = submit_all (NewGateway nan_orders 0 [''AAPL''] (Some NewTradeLog)) [1, 2, 3, 4]"

definition nan_state5 :: state where
  "nan_state5 = snd (gw_Submit nan_state4 (Some 5))"

definition nan_state6 :: state where
  "nan_state6 = snd (gw_Submit nan_state5 (Some 6))"

section \<open>Basic facts\<close>

lemma enum_distinct [simp]:
  "Buy \<noteq> Sell" "Sell \<noteq> Buy"
  "Limit \<noteq> Market" "Limit \<noteq> IOC" "Market \<noteq> IOC" "Market \<noteq> Limit" "IOC \<noteq> Limit" "IOC \<noteq> Market"
  "StatusOpen \<noteq> StatusPartial" "StatusOpen \<noteq> StatusFilled" "StatusOpen \<noteq> StatusCancelled"
  "StatusOpen \<noteq> StatusRejected" "StatusPartial \<noteq> StatusOpen" "StatusPartial \<noteq> StatusFilled"
  "StatusPartial \<noteq> StatusCancelled" "StatusPartial \<noteq> StatusRejected"
  "StatusFilled \<noteq> StatusOpen" "StatusFilled \<noteq> StatusPartial" "StatusFilled \<noteq> StatusCancelled"
  "StatusFilled \<noteq> StatusRejected" "StatusCancelled \<noteq> StatusOpen" "StatusCancelled \<noteq> StatusPartial"
  "StatusCancelled \<noteq> StatusFilled" "StatusCancelled \<noteq> StatusRejected"
  "StatusRejected \<noteq> StatusOpen" "StatusRejected \<noteq> StatusPartial" "StatusRejected \<noteq> StatusFilled"
  "StatusRejected \<noteq> StatusCancelled"
  by (simp_all add: Buy_def Sell_def Limit_def Market_def IOC_def StatusOpen_def StatusPartial_def
        StatusFilled_def StatusCancelled_def StatusRejected_def)

lemma IsActive_simps [simp]:
  "IsActive (x\<lparr>Status := StatusOpen\<rparr>)" "IsActive (x\<lparr>Status := StatusPartial\<rparr>)"
  "\<not> IsActive (x\<lparr>Status := StatusFilled\<rparr>)" "\<not> IsActive (x\<lparr>Status := StatusCancelled\<rparr>)"
  "\<not> IsActive (x\<lparr>Status := StatusRejected\<rparr>)"
  by (simp_all add: IsActive_def)

text \<open>The comparisons of prices: \<open><\<close> is a strict linear order on the prices other than NaN.\<close>

lemma f_lt_NaN [simp]: "\<not> f_lt x NaN" "\<not> f_lt NaN x"
  by (cases x; simp)+

lemma f_lt_irrefl [simp]: "\<not> f_lt x x"
  by (cases x) simp_all

lemma f_lt_trans: "f_lt x y \<Longrightarrow> f_lt y z \<Longrightarrow> f_lt x z"
  by (cases x; cases y; cases z) simp_all

lemma f_lt_asym: "f_lt x y \<Longrightarrow> \<not> f_lt y x"
  using f_lt_trans [of x y x] by auto

lemma f_lt_linear: "x \<noteq> NaN \<Longrightarrow> y \<noteq> NaN \<Longrightarrow> f_lt x y \<or> x = y \<or> f_lt y x"
  by (cases x; cases y) auto

lemma f_lt_negtrans: "x \<noteq> NaN \<Longrightarrow> y \<noteq> NaN \<Longrightarrow> z \<noteq> NaN \<Longrightarrow> \<not> f_lt x y \<Longrightarrow> \<not> f_lt y z \<Longrightarrow> \<not> f_lt x z"
  by (cases x; cases y; cases z) simp_all

lemma f_ne_numeric: "x \<noteq> NaN \<Longrightarrow> y \<noteq> NaN \<Longrightarrow> f_ne x y \<longleftrightarrow> x \<noteq> y"
  by (simp add: f_ne_def f_eq_def)

lemma f_ne_NaN [simp]: "f_ne x NaN" "f_ne NaN x"
  by (simp_all add: f_ne_def f_eq_def)

lemma f_le_numeric: "x \<noteq> NaN \<Longrightarrow> y \<noteq> NaN \<Longrightarrow> f_le x y \<longleftrightarrow> \<not> f_lt y x"
  using f_lt_linear [of x y] f_lt_asym [of x y] by (auto simp: f_le_def f_eq_def)

lemma f_lt_le_trans: "f_lt x y \<Longrightarrow> z \<noteq> NaN \<Longrightarrow> \<not> f_lt z y \<Longrightarrow> f_lt x z"
  by (cases x; cases y; cases z) simp_all

lemma f_le_lt_trans: "f_lt y z \<Longrightarrow> x \<noteq> NaN \<Longrightarrow> \<not> f_lt y x \<Longrightarrow> f_lt x z"
  by (cases x; cases y; cases z) simp_all

section \<open>Gateway validation\<close>

text \<open>
  C6. Submitting a nil order: \<open>validateOrder\<close> does return its error for the nil order,
  but \<open>Gateway.Submit\<close> then writes the status of the order it was given, so the call
  ends in a nil pointer dereference and returns no rejection.
\<close>

theorem nil_submit_panics:
  "validateOrder (store w) None = Some \<lparr>Field = ''order'', Message = OrdreNil\<rparr> \<and>
   gw_Submit w None = (Inl NilPointerDereference, w)"
  by (simp add: gw_Submit_def validateOrder_def)

lemma not_sle_iff: "\<not> (a :: 64 word) \<le>s b \<longleftrightarrow> b <s a"
  by (auto simp: word_sle_eq word_sless_alt)

lemma validateOrder_first_failure:
  assumes "\<not> (Type (s a) = Limit \<and> Price (s a) = NaN)"
  shows "first_failure (butlast (checks_in_order w)) (s a) =
     map_option (\<lambda>ve. (Field ve,
        case Message ve of
                  OrdreNil \<Rightarrow> malformed
                | SymboleVide \<Rightarrow> empty_field
                | CoteInvalide x \<Rightarrow> invalid_enum
                | TypeInvalide x \<Rightarrow> invalid_enum
                | QuantiteInvalide q \<Rightarrow> invalid_range
                | PrixLimiteInvalide p \<Rightarrow> invalid_range
                | PrixAnormal p \<Rightarrow> out_of_bounds)) (validateOrder s (Some a))"
  using assms f_le_numeric [of "Price (s a)" "Finite 0"] f_le_numeric [of "Price (s a)" "Finite 1000000"]
  by (auto simp: first_failure_def checks_in_order_def validateOrder_def word_sle_eq word_sless_alt
        f_gt_def)

text \<open>
  C8 (as amended). For a non-nil order that is not a LIMIT order with a NaN price, the
  first failing check, in the order symbol non-empty, side, type, quantity, limit price
  positive, limit price at most 1,000,000 and only then symbol registered, is the field
  and failure kind of the gateway's rejection; the submission is accepted exactly when no
  check fails.
\<close>

theorem first_failure_order:
  assumes "\<not> (Type (store w a) = Limit \<and> Price (store w a) = NaN)"
  shows "first_failure (checks_in_order w) (store w a) =
     (case fst (gw_Submit w (Some a)) of Inl e \<Rightarrow> failure_of e | Inr trds \<Rightarrow> None)"
proof (cases "validateOrder (store w) (Some a)")
  case None
  then have "first_failure (butlast (checks_in_order w)) (store w a) = None"
    by (simp add: validateOrder_first_failure [where s = "store w" and a = a, OF assms])
  then have "first_failure (checks_in_order w) (store w a) =
      (if books w (Symbol (store w a)) = None then Some (''symbol'', unknown_symbol) else None)"
    by (auto simp: first_failure_def checks_in_order_def split: if_splits)
  then show ?thesis
    using None by (auto simp: gw_Submit_def failure_of_def split: prod.splits)
next
  case (Some ve)
  then have "first_failure (butlast (checks_in_order w)) (store w a) \<noteq> None"
    by (simp add: validateOrder_first_failure [where s = "store w" and a = a, OF assms])
  then have "first_failure (checks_in_order w) (store w a) =
      first_failure (butlast (checks_in_order w)) (store w a)"
    by (auto simp: first_failure_def checks_in_order_def split: if_splits)
  then show ?thesis
    using Some by (simp add: gw_Submit_def failure_of_def validateOrder_first_failure [where s = "store w" and a = a, OF assms])
qed

theorem first_failure_order_witness:
  "Price (store (NewGateway goog_zero_qty 0 [''AAPL'', ''MSFT''] (Some NewTradeLog)) 0) \<noteq> NaN \<and>
   first_failure (checks_in_order (NewGateway goog_zero_qty 0 [''AAPL'', ''MSFT''] (Some NewTradeLog)))
     (store (NewGateway goog_zero_qty 0 [''AAPL'', ''MSFT''] (Some NewTradeLog)) 0) =
     Some (''quantity'', invalid_range) \<and>
   fst (gw_Submit (NewGateway goog_zero_qty 0 [''AAPL'', ''MSFT''] (Some NewTradeLog)) (Some 0)) =
     Inl (OrderRejected 1 \<lparr>Field = ''quantity'', Message = QuantiteInvalide 0\<rparr>)"
proof -
  let ?w = "NewGateway goog_zero_qty 0 [''AAPL'', ''MSFT''] (Some NewTradeLog)"
  have p: "Price (store ?w 0) \<noteq> NaN"
    by (simp add: NewGateway_def goog_zero_qty_def NewLimitOrder_def)
  have r: "fst (gw_Submit ?w (Some 0)) =
      Inl (OrderRejected 1 \<lparr>Field = ''quantity'', Message = QuantiteInvalide 0\<rparr>)"
    by (simp add: NewGateway_def goog_zero_qty_def NewLimitOrder_def gw_Submit_def
          validateOrder_def Buy_def Sell_def Limit_def Market_def IOC_def word_sle_eq)
  from first_failure_order [of ?w 0] p r show ?thesis
    by (simp add: failure_of_def)
qed

text \<open>
  C8 as stated fails: an order for the unregistered symbol GOOG with quantity zero is
  rejected for its quantity, not as an unknown symbol.
\<close>

theorem unknown_symbol_not_first:
  "Book (NewGateway goog_zero_qty 0 [''AAPL'', ''MSFT''] (Some NewTradeLog)) ''GOOG'' = None \<and>
   fst (gw_Submit (NewGateway goog_zero_qty 0 [''AAPL'', ''MSFT''] (Some NewTradeLog)) (Some 0)) =
     Inl (OrderRejected 1 \<lparr>Field = ''quantity'', Message = QuantiteInvalide 0\<rparr>) \<and>
   fst (gw_Submit (NewGateway goog_zero_qty 0 [''AAPL'', ''MSFT''] (Some NewTradeLog)) (Some 0)) \<noteq>
     Inl (SymbolNotSupported 1 ''GOOG'')"
  by (simp add: Book_def NewGateway_def goog_zero_qty_def NewLimitOrder_def gw_Submit_def
        validateOrder_def Buy_def Sell_def Limit_def Market_def IOC_def word_sle_eq)

text \<open>
  Where the hypothesis on the price fails: a LIMIT order with a NaN price fails the rule
  that the limit price is positive, and the gateway accepts it, since \<open>validateOrder\<close>
  tests \<open>Price <= 0\<close> and \<open>Price > 1000000\<close>, which are both false on NaN.
\<close>

lemma nan_limit_price_accepted:
  "Type (nan_orders 2) = Limit \<and> Price (nan_orders 2) = NaN \<and>
   first_failure (checks_in_order (NewGateway nan_orders 0 [''AAPL''] (Some NewTradeLog))) (nan_orders 2) =
     Some (''price'', invalid_range) \<and>
   validateOrder nan_orders (Some 2) = None \<and>
   fst (gw_Submit (NewGateway nan_orders 0 [''AAPL''] (Some NewTradeLog)) (Some 2)) = Inr []"
  by (simp add: first_failure_def checks_in_order_def nan_orders_def NewLimitOrder_def NewGateway_def
        gw_Submit_def validateOrder_def ob_Submit_def ob_match_def matchBuy_def matchBuy_loop.simps
        matchBuy_guard_def finalizeOrder_def heap_Push_def up.simps NewOrderBook_def AddAll_def
        NewTradeLog_def Remaining_def IsFilled_def f_gt_def f_le_def f_eq_def word_sless_alt word_sle_eq
        Let_def Buy_def Sell_def Limit_def Market_def IOC_def)

section \<open>Cancel\<close>

lemma cancel_scan_Some:
  "cancel_scan s i h = Some a \<Longrightarrow> a \<in> set h \<and> ID (s a) = i \<and> IsActive (s a)"
  by (induction h) (auto split: if_splits)

lemma cancel_scan_None:
  "cancel_scan s i h = None \<longleftrightarrow> (\<forall>a \<in> set h. \<not> (ID (s a) = i \<and> IsActive (s a)))"
  by (induction h) auto

lemma cancel_scan_append:
  "cancel_scan s i (xs @ ys) =
     (case cancel_scan s i xs of Some a \<Rightarrow> Some a | None \<Rightarrow> cancel_scan s i ys)"
  by (induction xs) auto

lemma ob_Cancel_scan:
  "ob_Cancel s ob i =
     (case cancel_scan s i (bids ob @ asks ob) of
        Some a \<Rightarrow> (True, s(a := (s a)\<lparr>Status := StatusCancelled\<rparr>))
      | None \<Rightarrow> (False, s))"
  by (simp add: ob_Cancel_def cancel_scan_append split: option.splits)

lemma ob_Cancel_True_iff:
  "fst (ob_Cancel s ob i) \<longleftrightarrow> (\<exists>a \<in> set (bids ob @ asks ob). ID (s a) = i \<and> IsActive (s a))"
proof (cases "cancel_scan s i (bids ob @ asks ob)")
  case None
  then show ?thesis
    using cancel_scan_None [of s i "bids ob @ asks ob"] by (simp add: ob_Cancel_scan)
next
  case (Some a)
  then show ?thesis
    using cancel_scan_Some [OF Some] by (auto simp: ob_Cancel_scan)
qed

lemma ob_Cancel_True:
  assumes "fst (ob_Cancel s ob i)"
  shows "\<exists>a \<in> set (bids ob @ asks ob). ID (s a) = i \<and> IsActive (s a) \<and>
           snd (ob_Cancel s ob i) = s(a := (s a)\<lparr>Status := StatusCancelled\<rparr>)"
proof (cases "cancel_scan s i (bids ob @ asks ob)")
  case None
  with assms show ?thesis by (simp add: ob_Cancel_scan)
next
  case (Some a)
  then show ?thesis
    using cancel_scan_Some [OF Some] by (auto simp: ob_Cancel_scan)
qed

lemma ob_Cancel_False: "\<not> fst (ob_Cancel s ob i) \<Longrightarrow> snd (ob_Cancel s ob i) = s"
  by (simp add: ob_Cancel_scan split: option.splits)

lemma ob_Cancel_again:
  assumes inj: "inj_on (\<lambda>a. ID (s a)) (set (bids ob @ asks ob))" and ok: "fst (ob_Cancel s ob i)"
  shows "ob_Cancel (snd (ob_Cancel s ob i)) ob i = (False, snd (ob_Cancel s ob i))"
proof -
  from ob_Cancel_True [OF ok] obtain a where
    a: "a \<in> set (bids ob @ asks ob)" "ID (s a) = i"
    and s': "snd (ob_Cancel s ob i) = s(a := (s a)\<lparr>Status := StatusCancelled\<rparr>)"
    by blast
  let ?s' = "s(a := (s a)\<lparr>Status := StatusCancelled\<rparr>)"
  have "\<not> (ID (?s' b) = i \<and> IsActive (?s' b))" if "b \<in> set (bids ob @ asks ob)" for b
  proof (cases "b = a")
    case True
    then show ?thesis by simp
  next
    case False
    with inj a that have "ID (s b) \<noteq> i"
      by (auto simp: inj_on_def)
    with False show ?thesis by simp
  qed
  then have "cancel_scan ?s' i (bids ob @ asks ob) = None"
    by (simp add: cancel_scan_None)
  then have "ob_Cancel ?s' ob i = (False, ?s')"
    by (simp add: ob_Cancel_scan)
  then show ?thesis
    by (simp only: s')
qed

lemma gw_Cancel_book:
  "books w symb = Some ob \<Longrightarrow>
     gw_Cancel w symb i =
       (if fst (ob_Cancel (store w) ob i)
        then (None, w\<lparr>store := snd (ob_Cancel (store w) ob i)\<rparr>)
        else (Some (OrderNotFound i), w))"
  using ob_Cancel_False [of "store w" ob i]
  by (cases "ob_Cancel (store w) ob i") (auto simp: gw_Cancel_def)

text \<open>
  C9. \<open>Cancel\<close> returns true exactly when the book holds an order with the id that is
  OPEN or PARTIAL, and then sets the status of one such order to CANCELLED; otherwise it
  returns false and changes nothing, which the gateway reports as not found. Where the
  ids of the book's orders are distinct, cancelling the same id again returns false and
  changes nothing.
\<close>

theorem cancel_semantics:
  "(fst (ob_Cancel s ob i) \<longleftrightarrow> (\<exists>a \<in> set (bids ob @ asks ob). ID (s a) = i \<and> IsActive (s a))) \<and>
   (fst (ob_Cancel s ob i) \<longrightarrow>
      (\<exists>a \<in> set (bids ob @ asks ob). ID (s a) = i \<and> IsActive (s a) \<and>
         snd (ob_Cancel s ob i) = s(a := (s a)\<lparr>Status := StatusCancelled\<rparr>))) \<and>
   (\<not> fst (ob_Cancel s ob i) \<longrightarrow> snd (ob_Cancel s ob i) = s) \<and>
   (inj_on (\<lambda>a. ID (s a)) (set (bids ob @ asks ob)) \<and> fst (ob_Cancel s ob i) \<longrightarrow>
      ob_Cancel (snd (ob_Cancel s ob i)) ob i = (False, snd (ob_Cancel s ob i))) \<and>
   (books w symb = Some ob \<and> store w = s \<longrightarrow>
      gw_Cancel w symb i =
        (if fst (ob_Cancel s ob i)
         then (None, w\<lparr>store := snd (ob_Cancel s ob i)\<rparr>)
         else (Some (OrderNotFound i), w)))"
proof (intro conjI impI)
  show "fst (ob_Cancel s ob i) \<longleftrightarrow> (\<exists>a \<in> set (bids ob @ asks ob). ID (s a) = i \<and> IsActive (s a))"
    by (rule ob_Cancel_True_iff)
  show "\<exists>a \<in> set (bids ob @ asks ob). ID (s a) = i \<and> IsActive (s a) \<and>
         snd (ob_Cancel s ob i) = s(a := (s a)\<lparr>Status := StatusCancelled\<rparr>)"
    if "fst (ob_Cancel s ob i)"
    using that by (rule ob_Cancel_True)
  show "snd (ob_Cancel s ob i) = s" if "\<not> fst (ob_Cancel s ob i)"
    using that by (rule ob_Cancel_False)
  show "ob_Cancel (snd (ob_Cancel s ob i)) ob i = (False, snd (ob_Cancel s ob i))"
    if "inj_on (\<lambda>a. ID (s a)) (set (bids ob @ asks ob)) \<and> fst (ob_Cancel s ob i)"
    using that by (simp add: ob_Cancel_again)
  show "gw_Cancel w symb i =
        (if fst (ob_Cancel s ob i)
         then (None, w\<lparr>store := snd (ob_Cancel s ob i)\<rparr>)
         else (Some (OrderNotFound i), w))"
    if "books w symb = Some ob \<and> store w = s"
    using that gw_Cancel_book [of w symb ob i] by simp
qed

theorem cancel_semantics_witness:
  "fst (ob_Cancel two_resting two_resting_book 2) \<and>
   ob_Cancel (snd (ob_Cancel two_resting two_resting_book 2)) two_resting_book 2 =
     (False, snd (ob_Cancel two_resting two_resting_book 2)) \<and>
   \<not> fst (ob_Cancel two_resting two_resting_book 5) \<and>
   snd (ob_Cancel two_resting two_resting_book 5) = two_resting \<and>
   gw_Cancel two_resting_state ''AAPL'' 5 = (Some (OrderNotFound 5), two_resting_state)"
proof -
  have present: "\<exists>a \<in> set (bids two_resting_book @ asks two_resting_book).
      ID (two_resting a) = 2 \<and> IsActive (two_resting a)"
    by (simp add: two_resting_book_def two_resting_def NewLimitOrder_def IsActive_def)
  have absent: "\<not> (\<exists>a \<in> set (bids two_resting_book @ asks two_resting_book).
      ID (two_resting a) = 5 \<and> IsActive (two_resting a))"
    by (simp add: two_resting_book_def two_resting_def NewLimitOrder_def)
  have inj: "inj_on (\<lambda>a. ID (two_resting a)) (set (bids two_resting_book @ asks two_resting_book))"
    by (simp add: two_resting_book_def two_resting_def NewLimitOrder_def)
  have book: "books two_resting_state ''AAPL'' = Some two_resting_book \<and>
      store two_resting_state = two_resting"
    by (simp add: two_resting_state_def)
  show ?thesis
    using present absent inj book
      cancel_semantics [of two_resting two_resting_book 2 two_resting_state "''AAPL''"]
      cancel_semantics [of two_resting two_resting_book 5 two_resting_state "''AAPL''"]
    by simp
qed

lemma ob_Cancel_frame:
  "snd (ob_Cancel s ob i) = s \<or>
   (\<exists>a. ID (s a) = i \<and> IsActive (s a) \<and>
        snd (ob_Cancel s ob i) = s(a := (s a)\<lparr>Status := StatusCancelled\<rparr>))"
  using ob_Cancel_True [of s ob i] ob_Cancel_False [of s ob i] by blast

text \<open>
  C10. A cancel through the gateway leaves the books (both heaps of every book), the trade
  log and the trade counter as they are; in the memory at most one order changes, the
  targeted active one, and of it only the status, which becomes CANCELLED.
\<close>

theorem cancel_frame:
  assumes "gw_Cancel w symb i = (e, w')"
  shows "books w' = books w \<and> tradelog w' = tradelog w \<and> globalTradeSeq w' = globalTradeSeq w \<and>
    (\<exists>a. \<forall>b. b \<noteq> a \<longrightarrow> store w' b = store w b) \<and>
    (\<forall>b. store w' b = store w b \<or>
         (ID (store w b) = i \<and> IsActive (store w b) \<and>
          store w' b = (store w b)\<lparr>Status := StatusCancelled\<rparr>)) \<and>
    (\<forall>b. ID (store w' b) = ID (store w b) \<and> Symbol (store w' b) = Symbol (store w b) \<and>
         Side (store w' b) = Side (store w b) \<and> Type (store w' b) = Type (store w b) \<and>
         Price (store w' b) = Price (store w b) \<and> Quantity (store w' b) = Quantity (store w b) \<and>
         Filled (store w' b) = Filled (store w b) \<and> Timestamp (store w' b) = Timestamp (store w b))"
proof (cases "books w symb")
  case None
  with assms have "w' = w" by (simp add: gw_Cancel_def)
  then show ?thesis by simp
next
  case (Some ob)
  have w': "w' = w\<lparr>store := snd (ob_Cancel (store w) ob i)\<rparr>"
    using assms Some by (auto simp: gw_Cancel_def split: prod.splits if_splits)
  from ob_Cancel_frame [of "store w" ob i] show ?thesis
  proof
    assume "snd (ob_Cancel (store w) ob i) = store w"
    then show ?thesis by (simp add: w')
  next
    assume "\<exists>a. ID (store w a) = i \<and> IsActive (store w a) \<and>
        snd (ob_Cancel (store w) ob i) = (store w)(a := (store w a)\<lparr>Status := StatusCancelled\<rparr>)"
    then obtain a where a: "ID (store w a) = i" "IsActive (store w a)"
      and s': "snd (ob_Cancel (store w) ob i) = (store w)(a := (store w a)\<lparr>Status := StatusCancelled\<rparr>)"
      by blast
    have "\<forall>b. b \<noteq> a \<longrightarrow> store w' b = store w b"
      by (simp add: w' s')
    then have one: "\<exists>a. \<forall>b. b \<noteq> a \<longrightarrow> store w' b = store w b" ..
    show ?thesis
      using a one by (simp add: w' s')
  qed
qed

theorem cancel_frame_witness:
  "books (snd (gw_Cancel two_resting_state ''AAPL'' 2)) = books two_resting_state \<and>
   tradelog (snd (gw_Cancel two_resting_state ''AAPL'' 2)) = tradelog two_resting_state \<and>
   Status (store (snd (gw_Cancel two_resting_state ''AAPL'' 2)) 2) = StatusCancelled \<and>
   Status (store two_resting_state 2) = StatusOpen \<and>
   Filled (store (snd (gw_Cancel two_resting_state ''AAPL'' 2)) 2) = Filled (store two_resting_state 2) \<and>
   store (snd (gw_Cancel two_resting_state ''AAPL'' 2)) 1 = store two_resting_state 1"
proof -
  have call: "gw_Cancel two_resting_state ''AAPL'' 2 =
      (fst (gw_Cancel two_resting_state ''AAPL'' 2), snd (gw_Cancel two_resting_state ''AAPL'' 2))"
    by simp
  have ev: "Status (store (snd (gw_Cancel two_resting_state ''AAPL'' 2)) 2) = StatusCancelled \<and>
      Status (store two_resting_state 2) = StatusOpen \<and>
      store (snd (gw_Cancel two_resting_state ''AAPL'' 2)) 1 = store two_resting_state 1"
    by (simp add: gw_Cancel_def ob_Cancel_def two_resting_state_def two_resting_book_def
          two_resting_def NewLimitOrder_def IsActive_def)
  show ?thesis
    using cancel_frame [OF call] ev by simp
qed

section \<open>The binary heap of container/heap\<close>

lemma strict_weak_asym: "strict_weak lt \<Longrightarrow> lt x y \<Longrightarrow> \<not> lt y x"
  unfolding strict_weak_def by blast

lemma strict_weak_irrefl: "strict_weak lt \<Longrightarrow> \<not> lt x x"
  unfolding strict_weak_def by blast

lemma strict_weak_negtrans: "strict_weak lt \<Longrightarrow> \<not> lt x y \<Longrightarrow> \<not> lt y z \<Longrightarrow> \<not> lt x z"
  unfolding strict_weak_def by blast

lemma parent_eq_iff: "0 < (k::nat) \<Longrightarrow> (k - 1) div 2 = i \<longleftrightarrow> k = 2 * i + 1 \<or> k = 2 * i + 2"
  by arith

lemma parent_less: "0 < (k::nat) \<Longrightarrow> (k - 1) div 2 < k"
  by arith

lemma nth_Swap:
  "i < length h \<Longrightarrow> j < length h \<Longrightarrow> k < length h \<Longrightarrow>
   Swap h i j ! k = (if k = j then h ! i else if k = i then h ! j else h ! k)"
  by (simp add: Swap_def nth_list_update)

lemma set_Swap [simp]: "i < length h \<Longrightarrow> j < length h \<Longrightarrow> set (Swap h i j) = set h"
  by (simp add: Swap_def set_swap)

lemma set_up: "j < length h \<Longrightarrow> set (up Less h j) = set h"
proof (induction Less h j rule: up.induct)
  case (1 Less h j)
  have "(j - 1) div 2 \<le> j" by arith
  with 1 show ?case
    by (subst up.simps) (simp add: Let_def)
qed

lemma set_down: "n \<le> length h \<Longrightarrow> set (down Less h i n) = set h"
proof (induction Less h i n rule: down.induct)
  case (1 Less h i n)
  show ?case
    using 1 by (subst down.simps) (simp add: Let_def)
qed

lemma heap_top_least:
  assumes sw: "strict_weak lt" and hp: "heap_upto lt h n"
  shows "k < n \<Longrightarrow> \<not> lt (h ! k) (h ! 0)"
proof (induction k rule: less_induct)
  case (less k)
  show ?case
  proof (cases "k = 0")
    case True
    then show ?thesis using sw by (simp add: strict_weak_irrefl)
  next
    case False
    then have pk: "(k - 1) div 2 < k" by arith
    with less have "\<not> lt (h ! ((k - 1) div 2)) (h ! 0)" by simp
    moreover have "\<not> lt (h ! k) (h ! ((k - 1) div 2))"
      using hp False less.prems by (simp add: heap_upto_def)
    ultimately show ?thesis
      using sw strict_weak_negtrans by blast
  qed
qed

lemma down_heap:
  assumes sw: "strict_weak lt" and rd: "\<And>h i j. Less h i j = lt (h ! i) (h ! j)"
  shows "n \<le> length h \<Longrightarrow>
     (\<forall>k. 0 < k \<and> k < n \<and> (k - 1) div 2 \<noteq> i \<longrightarrow> \<not> lt (h ! k) (h ! ((k - 1) div 2))) \<Longrightarrow>
     (0 < i \<longrightarrow> (\<forall>c. 0 < c \<and> c < n \<and> (c - 1) div 2 = i \<longrightarrow> \<not> lt (h ! c) (h ! ((i - 1) div 2)))) \<Longrightarrow>
     heap_upto lt (down Less h i n) n"
  using rd
proof (induction Less h i n rule: down.induct)
  case (1 Less h i n)
  note len = \<open>n \<le> length h\<close>
  note inv1 = 1(3)
  note inv2 = 1(4)
  note rd = 1(5)
  let ?j1 = "2 * i + 1"
  show ?case
  proof (cases "n \<le> ?j1")
    case True
    have "\<not> lt (h ! k) (h ! ((k - 1) div 2))" if "0 < k" "k < n" for k
    proof (cases "(k - 1) div 2 = i")
      case False
      with inv1 that show ?thesis by blast
    next
      case pk: True
      with that(1) have "k = 2 * i + 1 \<or> k = 2 * i + 2" using parent_eq_iff [of k i] by blast
      with True that(2) show ?thesis by arith
    qed
    then have "heap_upto lt h n" by (simp add: heap_upto_def)
    then show ?thesis
      using True by (subst down.simps) (simp add: Let_def)
  next
    case False
    define j where "j = (if ?j1 + 1 < n \<and> Less h (?j1 + 1) ?j1 then ?j1 + 1 else ?j1)"
    have j_range: "j < n" "i < j" "0 < j" "(j - 1) div 2 = i" "j = ?j1 \<or> j = ?j1 + 1"
      using False by (auto simp: j_def)
    have unfold: "down Less h i n = (if \<not> Less h j i then h else down Less (Swap h i j) j n)"
      using False by (subst down.simps) (simp add: Let_def j_def)
    have least: "\<not> lt (h ! c) (h ! j)" if "0 < c" "c < n" "(c - 1) div 2 = i" for c
    proof -
      from that have c: "c = ?j1 \<or> c = ?j1 + 1" using parent_eq_iff [of c i] by auto
      show ?thesis
      proof (cases "c = j")
        case True
        then show ?thesis using sw by (simp add: strict_weak_irrefl)
      next
        case False
        show ?thesis
        proof (cases "j = ?j1")
          case True
          with c False have c': "c = ?j1 + 1" by simp
          with True that(2) have "\<not> Less h (?j1 + 1) ?j1"
            by (auto simp: j_def split: if_splits)
          then show ?thesis using True c' by (simp add: rd)
        next
          case nj: False
          with j_range(5) have j': "j = ?j1 + 1" by simp
          with c False have c': "c = ?j1" by simp
          from j' have "Less h (?j1 + 1) ?j1"
            by (auto simp: j_def split: if_splits)
          then have "lt (h ! j) (h ! c)" using j' c' by (simp add: rd)
          then show ?thesis using sw strict_weak_asym by blast
        qed
      qed
    qed
    show ?thesis
    proof (cases "Less h j i")
      case nl: False
      then have nlt: "\<not> lt (h ! j) (h ! i)" by (simp add: rd)
      have "\<not> lt (h ! k) (h ! ((k - 1) div 2))" if "0 < k" "k < n" for k
      proof (cases "(k - 1) div 2 = i")
        case False
        with inv1 that show ?thesis by blast
      next
        case True
        from least [OF that True] nlt have "\<not> lt (h ! k) (h ! i)"
          using sw strict_weak_negtrans by blast
        then show ?thesis using True by simp
      qed
      then have "heap_upto lt h n" by (simp add: heap_upto_def)
      then show ?thesis using nl unfold by simp
    next
      case ls: True
      then have lt_ji: "lt (h ! j) (h ! i)" by (simp add: rd)
      let ?h = "Swap h i j"
      have il: "i < length h" and jl: "j < length h"
        using j_range len by auto
      have nth: "?h ! k = (if k = j then h ! i else if k = i then h ! j else h ! k)" if "k < n" for k
        using that len il jl by (simp add: nth_Swap)
      have inv1': "\<forall>k. 0 < k \<and> k < n \<and> (k - 1) div 2 \<noteq> j \<longrightarrow> \<not> lt (?h ! k) (?h ! ((k - 1) div 2))"
      proof (intro allI impI)
        fix k assume k: "0 < k \<and> k < n \<and> (k - 1) div 2 \<noteq> j"
        then have pk: "(k - 1) div 2 < n" "(k - 1) div 2 < k" by arith+
        show "\<not> lt (?h ! k) (?h ! ((k - 1) div 2))"
        proof (cases "(k - 1) div 2 = i")
          case True
          then have ki: "k \<noteq> i" using pk by simp
          show ?thesis
          proof (cases "k = j")
            case True
            then show ?thesis
              using lt_ji j_range sw strict_weak_asym [of lt "h ! j" "h ! i"]
              by (simp add: nth)
          next
            case False
            have "\<not> lt (h ! k) (h ! j)"
              using least k True by blast
            then show ?thesis
              using False ki True k j_range by (simp add: nth)
          qed
        next
          case npi: False
          show ?thesis
          proof (cases "k = i")
            case True
            then have ipos: "0 < i" using k by simp
            with inv2 j_range have "\<not> lt (h ! j) (h ! ((i - 1) div 2))" by blast
            moreover have "(i - 1) div 2 \<noteq> i" "(i - 1) div 2 \<noteq> j"
              using ipos j_range by arith+
            ultimately show ?thesis
              using True k j_range pk by (simp add: nth)
          next
            case False
            then have "k \<noteq> j" using npi j_range by auto
            moreover have "\<not> lt (h ! k) (h ! ((k - 1) div 2))"
              using inv1 k npi by blast
            ultimately show ?thesis
              using False k npi pk by (simp add: nth)
          qed
        qed
      qed
      have inv2': "0 < j \<longrightarrow> (\<forall>c. 0 < c \<and> c < n \<and> (c - 1) div 2 = j \<longrightarrow> \<not> lt (?h ! c) (?h ! ((j - 1) div 2)))"
      proof (intro allI impI)
        fix c assume "0 < j" and c: "0 < c \<and> c < n \<and> (c - 1) div 2 = j"
        then have cj: "c \<noteq> j" "c \<noteq> i" using j_range by arith+
        have "\<not> lt (h ! c) (h ! j)"
          using inv1 c j_range by (metis less_not_refl)
        then show "\<not> lt (?h ! c) (?h ! ((j - 1) div 2))"
          using cj c j_range by (simp add: nth)
      qed
      have nn: "\<not> \<not> Less h j i" using ls by simp
      have len': "n \<le> length ?h" using len by simp
      have "heap_upto lt (down Less ?h j n) n"
        by (rule 1(1) [OF refl False j_def nn len' inv1' inv2' rd])
      then show ?thesis using ls unfold by simp
    qed
  qed
qed

lemma up_heap:
  assumes sw: "strict_weak lt" and rd: "\<And>h i j. Less h i j = lt (h ! i) (h ! j)"
  shows "j < length h \<Longrightarrow>
     (\<forall>k. 0 < k \<and> k < length h \<and> k \<noteq> j \<longrightarrow> \<not> lt (h ! k) (h ! ((k - 1) div 2))) \<Longrightarrow>
     (0 < j \<longrightarrow> (\<forall>c. 0 < c \<and> c < length h \<and> (c - 1) div 2 = j \<longrightarrow> \<not> lt (h ! c) (h ! ((j - 1) div 2)))) \<Longrightarrow>
     is_heap lt (up Less h j)"
  using rd
proof (induction Less h j rule: up.induct)
  case (1 Less h j)
  note len = \<open>j < length h\<close>
  note inv1 = 1(3)
  note inv2 = 1(4)
  note rd = 1(5)
  define i where "i = (j - 1) div 2"
  have unfold: "up Less h j = (if i = j \<or> \<not> Less h j i then h else up Less (Swap h i j) i)"
    by (subst up.simps) (simp add: Let_def i_def)
  show ?case
  proof (cases "i = j \<or> \<not> Less h j i")
    case stop: True
    have "\<not> lt (h ! k) (h ! ((k - 1) div 2))" if "0 < k" "k < length h" for k
    proof (cases "k = j")
      case False
      with inv1 that show ?thesis by blast
    next
      case True
      with that(1) have "i \<noteq> j" using parent_less [of j] by (simp add: i_def)
      with stop have "\<not> lt (h ! j) (h ! i)" by (simp add: rd)
      then show ?thesis using True by (simp add: i_def)
    qed
    then have "is_heap lt h" by (simp add: is_heap_def heap_upto_def)
    then show ?thesis using stop unfold by simp
  next
    case go: False
    then have ij: "i \<noteq> j" and ls: "Less h j i" by auto
    then have jpos: "0 < j" by (auto simp: i_def)
    then have i_lt: "i < j" using parent_less [of j] by (simp add: i_def)
    have lt_ji: "lt (h ! j) (h ! i)" using ls by (simp add: rd)
    then have nlt_ij: "\<not> lt (h ! i) (h ! j)" using sw strict_weak_asym by blast
    let ?h = "Swap h i j"
    have il: "i < length h" using i_lt len by simp
    have nth: "?h ! k = (if k = j then h ! i else if k = i then h ! j else h ! k)" if "k < length h" for k
      using that len il by (simp add: nth_Swap)
    have inv1': "\<forall>k. 0 < k \<and> k < length ?h \<and> k \<noteq> i \<longrightarrow> \<not> lt (?h ! k) (?h ! ((k - 1) div 2))"
    proof (intro allI impI)
      fix k assume k: "0 < k \<and> k < length ?h \<and> k \<noteq> i"
      then have kl: "k < length h" and pk: "(k - 1) div 2 < k" "(k - 1) div 2 < length h"
        using parent_less [of k] by auto
      show "\<not> lt (?h ! k) (?h ! ((k - 1) div 2))"
      proof (cases "k = j")
        case True
        have "(j - Suc 0) div 2 = i" by (simp add: i_def)
        then show ?thesis using True nlt_ij ij kl il by (simp add: nth)
      next
        case kj: False
        then have old: "\<not> lt (h ! k) (h ! ((k - 1) div 2))" using inv1 k by simp
        show ?thesis
        proof (cases "(k - 1) div 2 = i")
          case True
          with old nlt_ij have "\<not> lt (h ! k) (h ! j)"
            using sw strict_weak_negtrans by metis
          then show ?thesis using True kj k kl il ij by (simp add: nth)
        next
          case npi: False
          show ?thesis
          proof (cases "(k - 1) div 2 = j")
            case True
            with inv2 jpos k kl have "\<not> lt (h ! k) (h ! i)" by (simp add: i_def)
            then show ?thesis using True kj k kl len ij by (simp add: nth)
          next
            case False
            then show ?thesis using old npi kj k kl pk by (simp add: nth)
          qed
        qed
      qed
    qed
    have inv2': "0 < i \<longrightarrow> (\<forall>c. 0 < c \<and> c < length ?h \<and> (c - 1) div 2 = i \<longrightarrow>
        \<not> lt (?h ! c) (?h ! ((i - 1) div 2)))"
    proof (intro allI impI)
      fix c assume ipos: "0 < i" and c: "0 < c \<and> c < length ?h \<and> (c - 1) div 2 = i"
      then have cl: "c < length h" and ci: "c \<noteq> i" using parent_less [of c] by auto
      have pi: "(i - 1) div 2 < i" using ipos by (rule parent_less)
      then have pil: "(i - 1) div 2 < length h" "(i - 1) div 2 \<noteq> i" "(i - 1) div 2 \<noteq> j"
        using il i_lt by auto
      have up_i: "\<not> lt (h ! i) (h ! ((i - 1) div 2))"
        using inv1 ipos il ij by simp
      show "\<not> lt (?h ! c) (?h ! ((i - 1) div 2))"
      proof (cases "c = j")
        case True
        then show ?thesis using up_i pil len by (simp add: nth)
      next
        case False
        then have "\<not> lt (h ! c) (h ! i)" using inv1 c cl by auto
        with up_i have "\<not> lt (h ! c) (h ! ((i - 1) div 2))"
          using sw strict_weak_negtrans by metis
        then show ?thesis using False ci cl pil by (simp add: nth)
      qed
    qed
    have il': "i < length ?h" using il by simp
    have "is_heap lt (up Less ?h i)"
      by (rule 1(1) [OF i_def go il' inv1' inv2' rd])
    then show ?thesis using go unfold by simp
  qed
qed

lemma heap_Push_heap:
  assumes sw: "strict_weak lt" and rd: "\<And>h i j. Less h i j = lt (h ! i) (h ! j)"
    and hp: "is_heap lt h"
  shows "is_heap lt (heap_Push Less h x)"
proof -
  let ?h = "h @ [x]"
  have len: "length h < length ?h" by simp
  have inv1: "\<forall>k. 0 < k \<and> k < length ?h \<and> k \<noteq> length h \<longrightarrow> \<not> lt (?h ! k) (?h ! ((k - 1) div 2))"
  proof (intro allI impI)
    fix k assume k: "0 < k \<and> k < length ?h \<and> k \<noteq> length h"
    then have kl: "k < length h" and pk: "(k - 1) div 2 < length h"
      using parent_less [of k] by auto
    from hp k kl have "\<not> lt (h ! k) (h ! ((k - 1) div 2))"
      by (simp add: is_heap_def heap_upto_def)
    then show "\<not> lt (?h ! k) (?h ! ((k - 1) div 2))"
      using kl pk by (simp add: nth_append)
  qed
  have inv2: "0 < length h \<longrightarrow> (\<forall>c. 0 < c \<and> c < length ?h \<and> (c - 1) div 2 = length h \<longrightarrow>
      \<not> lt (?h ! c) (?h ! ((length h - 1) div 2)))"
  proof (intro allI impI)
    fix c assume "0 < c \<and> c < length ?h \<and> (c - 1) div 2 = length h"
    then have False using parent_less [of c] by auto
    then show "\<not> lt (?h ! c) (?h ! ((length h - 1) div 2))" ..
  qed
  have "is_heap lt (up Less ?h (length h))"
    by (rule up_heap [OF sw rd len inv1 inv2])
  then show ?thesis by (simp add: heap_Push_def Let_def)
qed

lemma set_heap_Push: "set (heap_Push Less h x) = insert x (set h)"
  by (simp add: heap_Push_def Let_def set_up)

lemma heap_Pop_heap:
  assumes sw: "strict_weak lt" and rd: "\<And>h i j. Less h i j = lt (h ! i) (h ! j)"
    and hp: "is_heap lt h"
  shows "is_heap lt (snd (heap_Pop Less h))"
proof (cases "h = []")
  case True
  then show ?thesis
    by (simp add: heap_Pop_def Let_def is_heap_def heap_upto_def)
next
  case False
  define n where "n = length h - 1"
  let ?h1 = "Swap h 0 n"
  let ?h2 = "down Less ?h1 0 n"
  have nl: "n < length h" using False by (simp add: n_def)
  have inv1: "\<forall>k. 0 < k \<and> k < n \<and> (k - 1) div 2 \<noteq> 0 \<longrightarrow> \<not> lt (?h1 ! k) (?h1 ! ((k - 1) div 2))"
  proof (intro allI impI)
    fix k assume k: "0 < k \<and> k < n \<and> (k - 1) div 2 \<noteq> 0"
    then have pk: "(k - 1) div 2 < k" using parent_less [of k] by simp
    from hp k nl have "\<not> lt (h ! k) (h ! ((k - 1) div 2))"
      by (simp add: is_heap_def heap_upto_def)
    moreover have "k < length h" "(k - 1) div 2 < length h" "k \<noteq> n" "(k - 1) div 2 \<noteq> n"
        "k \<noteq> 0" "(k - 1) div 2 \<noteq> 0" "0 < length h"
      using k pk nl by auto
    ultimately show "\<not> lt (?h1 ! k) (?h1 ! ((k - 1) div 2))"
      using nl by (simp add: nth_Swap)
  qed
  have inv2: "0 < (0::nat) \<longrightarrow> (\<forall>c. 0 < c \<and> c < n \<and> (c - 1) div 2 = 0 \<longrightarrow>
      \<not> lt (?h1 ! c) (?h1 ! (((0::nat) - 1) div 2)))"
    by simp
  have len1: "n \<le> length ?h1" using nl by simp
  have h2: "heap_upto lt ?h2 n"
    by (rule down_heap [OF sw rd len1 inv1 inv2])
  have "length ?h2 = Suc n" using nl by (simp add: n_def)
  then have "butlast ?h2 ! k = ?h2 ! k" if "k < n" for k
    using that by (simp add: nth_butlast)
  moreover have "(k - 1) div 2 < n" if "0 < k" "k < n" for k
    using that parent_less [of k] by simp
  ultimately have "heap_upto lt (butlast ?h2) n"
    using h2 by (simp add: heap_upto_def)
  moreover have "length (butlast ?h2) = n" by (simp add: n_def)
  ultimately show ?thesis
    by (simp add: heap_Pop_def Let_def is_heap_def n_def)
qed

lemma set_heap_Pop: "set (snd (heap_Pop Less h)) \<subseteq> set h"
proof (cases "h = []")
  case True
  then show ?thesis
    by (subst heap_Pop_def) (simp add: Let_def Swap_def, subst down.simps, simp)
next
  case False
  then have "length h - 1 < length h" by simp
  then have "set (down Less (Swap h 0 (length h - 1)) 0 (length h - 1)) = set h"
    using False by (simp add: set_down)
  then show ?thesis
    using in_set_butlastD by (fastforce simp: heap_Pop_def Let_def)
qed

section \<open>Heaps of orders with numeric prices\<close>

text \<open>
  Sifting reads the heap through \<open>Less\<close> at indices of the slice only: two \<open>Less\<close> methods
  that agree on the slices with the entries of \<open>h\<close> sift \<open>h\<close> in the same way.
\<close>

lemma up_cong:
  assumes eq: "\<And>g i j. set g = A \<Longrightarrow> i < length g \<Longrightarrow> j < length g \<Longrightarrow> Less g i j = Less' g i j"
  shows "set h = A \<Longrightarrow> j < length h \<Longrightarrow> up Less h j = up Less' h j"
proof (induction j arbitrary: h rule: less_induct)
  case (less j)
  define i where "i = (j - 1) div 2"
  have u: "up L h j = (if i = j \<or> \<not> L h j i then h else up L (Swap h i j) i)" for L
    unfolding i_def by (subst up.simps) (simp add: Let_def)
  have ij: "i \<le> j" unfolding i_def by arith
  have same: "Less h j i = Less' h j i"
    using eq [of h j i] less.prems ij by simp
  show ?case
  proof (cases "i = j \<or> \<not> Less h j i")
    case True
    then show ?thesis
      using same by (auto simp: u [of Less] u [of Less'])
  next
    case False
    then have "i < j" using ij by simp
    then have "up Less (Swap h i j) i = up Less' (Swap h i j) i"
      using less.prems by (intro less.IH) simp_all
    then show ?thesis
      using False same by (simp add: u [of Less] u [of Less'])
  qed
qed

lemma down_cong:
  assumes eq: "\<And>g i j. set g = A \<Longrightarrow> i < length g \<Longrightarrow> j < length g \<Longrightarrow> Less g i j = Less' g i j"
  shows "set h = A \<Longrightarrow> n \<le> length h \<Longrightarrow> down Less h i n = down Less' h i n"
proof (induction "n - i" arbitrary: h i rule: less_induct)
  case less
  define j1 where "j1 = 2 * i + 1"
  have d: "down L h i n =
      (if n \<le> j1 then h
       else if \<not> L h (if j1 + 1 < n \<and> L h (j1 + 1) j1 then j1 + 1 else j1) i then h
            else down L (Swap h i (if j1 + 1 < n \<and> L h (j1 + 1) j1 then j1 + 1 else j1))
                   (if j1 + 1 < n \<and> L h (j1 + 1) j1 then j1 + 1 else j1) n)" for L
    unfolding j1_def by (subst down.simps) (simp add: Let_def)
  show ?case
  proof (cases "n \<le> j1")
    case True
    then show ?thesis
      by (simp only: d [of Less] d [of Less'] if_True)
  next
    case False
    have s1: "j1 + 1 < n \<Longrightarrow> Less h (j1 + 1) j1 = Less' h (j1 + 1) j1"
      using eq [of h "j1 + 1" j1] less.prems by simp
    define j where "j = (if j1 + 1 < n \<and> Less h (j1 + 1) j1 then j1 + 1 else j1)"
    have j': "j = (if j1 + 1 < n \<and> Less' h (j1 + 1) j1 then j1 + 1 else j1)"
      unfolding j_def using s1 by auto
    have jn: "j < n" "i < j"
      using False by (auto simp: j_def j1_def)
    have same: "Less h j i = Less' h j i"
      using eq [of h j i] less.prems jn by simp
    have ih: "down Less (Swap h i j) j n = down Less' (Swap h i j) j n"
      using less.prems jn by (intro less.hyps) simp_all
    have "down Less h i n = (if \<not> Less h j i then h else down Less (Swap h i j) j n)"
      using False by (simp only: d [of Less] j_def [symmetric] if_False)
    moreover have "down Less' h i n = (if \<not> Less' h j i then h else down Less' (Swap h i j) j n)"
      using False by (simp only: d [of Less'] j' [symmetric] if_False)
    ultimately show ?thesis
      using same ih by simp
  qed
qed

lemma heap_Push_cong:
  assumes "\<And>g i j. set g = insert x (set h) \<Longrightarrow> i < length g \<Longrightarrow> j < length g \<Longrightarrow>
    Less g i j = Less' g i j"
  shows "heap_Push Less h x = heap_Push Less' h x"
  unfolding heap_Push_def Let_def
  by (rule up_cong [where A = "insert x (set h)"]) (simp_all add: assms)

lemma heap_Pop_cong:
  assumes "\<And>g i j. set g = set h \<Longrightarrow> i < length g \<Longrightarrow> j < length g \<Longrightarrow> Less g i j = Less' g i j"
  shows "heap_Pop Less h = heap_Pop Less' h"
proof (cases "h = []")
  case True
  then show ?thesis
    by (simp add: heap_Pop_def down.simps [of _ _ 0 0])
next
  case False
  have "down Less (Swap h 0 (length h - 1)) 0 (length h - 1) =
      down Less' (Swap h 0 (length h - 1)) 0 (length h - 1)"
    using False by (intro down_cong [where A = "set h"]) (simp_all add: assms)
  then show ?thesis
    by (simp add: heap_Pop_def)
qed

lemma is_heap_cong:
  assumes "\<And>x y. x \<in> set h \<Longrightarrow> y \<in> set h \<Longrightarrow> lt x y = lt' x y"
  shows "is_heap lt h = is_heap lt' h"
proof -
  have "lt (h ! k) (h ! ((k - 1) div 2)) = lt' (h ! k) (h ! ((k - 1) div 2))" if "k < length h" for k
  proof -
    have "(k - 1) div 2 < length h" using that by arith
    then show ?thesis using that assms by simp
  qed
  then show ?thesis
    by (auto simp: is_heap_def heap_upto_def)
qed

lemma AskHeap_Less_before: "AskHeap_Less s h i j = ask_before s (h ! i) (h ! j)"
  by (simp add: AskHeap_Less_def ask_before_def)

lemma BidHeap_Less_before: "BidHeap_Less s h i j = bid_before s (h ! i) (h ! j)"
  by (simp add: BidHeap_Less_def bid_before_def)

lemma numeric_store_same: "numeric s h \<Longrightarrow> x \<in> set h \<Longrightarrow> numeric_store s x = s x"
  by (simp add: numeric_def numeric_store_def)

lemma numeric_store_Price [simp]: "Price (numeric_store s x) \<noteq> NaN"
  by (simp add: numeric_store_def)

lemma strict_weak_ask: "strict_weak (ask_before (numeric_store s))"
proof -
  define pr where "pr = (\<lambda>x. Price (numeric_store s x))"
  define ts where "ts = (\<lambda>x. sint (Timestamp (numeric_store s x)))"
  have n: "pr x \<noteq> NaN" for x by (simp add: pr_def)
  have ab: "ask_before (numeric_store s) x y =
      (if pr x \<noteq> pr y then f_lt (pr x) (pr y) else ts x < ts y)" for x y
    using n by (simp add: ask_before_def pr_def ts_def f_ne_numeric word_sless_alt)
  show ?thesis
    unfolding strict_weak_def ab
  proof (intro conjI allI impI)
    fix x show "\<not> (if pr x \<noteq> pr x then f_lt (pr x) (pr x) else ts x < ts x)" by simp
  next
    fix x y z
    assume "if pr x \<noteq> pr y then f_lt (pr x) (pr y) else ts x < ts y"
      and "if pr y \<noteq> pr z then f_lt (pr y) (pr z) else ts y < ts z"
    then show "if pr x \<noteq> pr z then f_lt (pr x) (pr z) else ts x < ts z"
      using f_lt_trans [of "pr x" "pr y" "pr z"] by (auto split: if_splits)
  next
    fix x y z
    assume "\<not> (if pr x \<noteq> pr y then f_lt (pr x) (pr y) else ts x < ts y)"
      and "\<not> (if pr y \<noteq> pr z then f_lt (pr y) (pr z) else ts y < ts z)"
    then show "\<not> (if pr x \<noteq> pr z then f_lt (pr x) (pr z) else ts x < ts z)"
      using f_lt_negtrans [OF n n n, of x y z] f_lt_linear [OF n n, of x y] f_lt_linear [OF n n, of y z]
        f_lt_asym [of "pr x" "pr y"] f_lt_asym [of "pr y" "pr z"]
      by (auto split: if_splits)
  qed
qed

lemma strict_weak_bid: "strict_weak (bid_before (numeric_store s))"
proof -
  define pr where "pr = (\<lambda>x. Price (numeric_store s x))"
  define ts where "ts = (\<lambda>x. sint (Timestamp (numeric_store s x)))"
  have n: "pr x \<noteq> NaN" for x by (simp add: pr_def)
  have ab: "bid_before (numeric_store s) x y =
      (if pr x \<noteq> pr y then f_lt (pr y) (pr x) else ts x < ts y)" for x y
    using n by (simp add: bid_before_def pr_def ts_def f_ne_numeric f_gt_def word_sless_alt)
  show ?thesis
    unfolding strict_weak_def ab
  proof (intro conjI allI impI)
    fix x show "\<not> (if pr x \<noteq> pr x then f_lt (pr x) (pr x) else ts x < ts x)" by simp
  next
    fix x y z
    assume "if pr x \<noteq> pr y then f_lt (pr y) (pr x) else ts x < ts y"
      and "if pr y \<noteq> pr z then f_lt (pr z) (pr y) else ts y < ts z"
    then show "if pr x \<noteq> pr z then f_lt (pr z) (pr x) else ts x < ts z"
      using f_lt_trans [of "pr z" "pr y" "pr x"] by (auto split: if_splits)
  next
    fix x y z
    assume "\<not> (if pr x \<noteq> pr y then f_lt (pr y) (pr x) else ts x < ts y)"
      and "\<not> (if pr y \<noteq> pr z then f_lt (pr z) (pr y) else ts y < ts z)"
    then show "\<not> (if pr x \<noteq> pr z then f_lt (pr z) (pr x) else ts x < ts z)"
      using f_lt_negtrans [OF n n n, of z y x] f_lt_linear [OF n n, of x y] f_lt_linear [OF n n, of y z]
        f_lt_asym [of "pr x" "pr y"] f_lt_asym [of "pr y" "pr z"]
      by (auto split: if_splits)
  qed
qed

lemma AskHeap_Less_numeric:
  "numeric s g \<Longrightarrow> i < length g \<Longrightarrow> j < length g \<Longrightarrow>
   AskHeap_Less s g i j = AskHeap_Less (numeric_store s) g i j"
  by (simp add: AskHeap_Less_def numeric_store_same)

lemma BidHeap_Less_numeric:
  "numeric s g \<Longrightarrow> i < length g \<Longrightarrow> j < length g \<Longrightarrow>
   BidHeap_Less s g i j = BidHeap_Less (numeric_store s) g i j"
  by (simp add: BidHeap_Less_def numeric_store_same)

lemma ask_heap_numeric_store:
  "numeric s h \<Longrightarrow> is_heap (ask_before s) h = is_heap (ask_before (numeric_store s)) h"
  by (rule is_heap_cong) (simp add: ask_before_def numeric_store_same)

lemma bid_heap_numeric_store:
  "numeric s h \<Longrightarrow> is_heap (bid_before s) h = is_heap (bid_before (numeric_store s)) h"
  by (rule is_heap_cong) (simp add: bid_before_def numeric_store_same)

section \<open>The matching loops\<close>

lemma fills_only_refl [simp]: "fills_only s s"
  by (simp add: fills_only_def)

lemma fills_only_fields:
  assumes "fills_only s s'"
  shows "ID (s' a) = ID (s a)" "Symbol (s' a) = Symbol (s a)" "Side (s' a) = Side (s a)"
    "Type (s' a) = Type (s a)" "Price (s' a) = Price (s a)" "Quantity (s' a) = Quantity (s a)"
    "Timestamp (s' a) = Timestamp (s a)"
proof -
  from assms have eq: "s' a = (s a)\<lparr>Filled := Filled (s' a), Status := Status (s' a)\<rparr>"
    by (simp add: fills_only_def)
  show "ID (s' a) = ID (s a)" by (subst eq) simp
  show "Symbol (s' a) = Symbol (s a)" by (subst eq) simp
  show "Side (s' a) = Side (s a)" by (subst eq) simp
  show "Type (s' a) = Type (s a)" by (subst eq) simp
  show "Price (s' a) = Price (s a)" by (subst eq) simp
  show "Quantity (s' a) = Quantity (s a)" by (subst eq) simp
  show "Timestamp (s' a) = Timestamp (s a)" by (subst eq) simp
qed

lemma fills_onlyI:
  assumes "\<And>a. ID (s' a) = ID (s a) \<and> Symbol (s' a) = Symbol (s a) \<and> Side (s' a) = Side (s a) \<and>
    Type (s' a) = Type (s a) \<and> Price (s' a) = Price (s a) \<and> Quantity (s' a) = Quantity (s a) \<and>
    Timestamp (s' a) = Timestamp (s a)"
  shows "fills_only s s'"
  unfolding fills_only_def
proof
  fix a
  from assms [of a] show "s' a = (s a)\<lparr>Filled := Filled (s' a), Status := Status (s' a)\<rparr>"
    by (cases "s a"; cases "s' a") simp
qed

lemma fills_only_trans: "fills_only s s' \<Longrightarrow> fills_only s' s'' \<Longrightarrow> fills_only s s''"
  by (rule fills_onlyI) (simp add: fills_only_fields)

lemma fills_only_Status [simp]: "fills_only s (s(a := (s a)\<lparr>Status := v\<rparr>))"
  by (rule fills_onlyI) simp

lemma fills_only_Filled [simp]: "fills_only s (s(a := (s a)\<lparr>Filled := v\<rparr>))"
  by (rule fills_onlyI) simp

lemma fills_only_fill2 [simp]: "fills_only s (fill2 s a p)"
  by (rule fills_onlyI) (simp add: fill2_def Let_def)

lemma ask_before_fills_only: "fills_only s s' \<Longrightarrow> ask_before s' = ask_before s"
  by (intro ext) (simp add: ask_before_def fills_only_fields)

lemma bid_before_fills_only: "fills_only s s' \<Longrightarrow> bid_before s' = bid_before s"
  by (intro ext) (simp add: bid_before_def fills_only_fields)

lemma of_simps [simp]:
  "store_of (s, seq, h, trds) = s" "heap_of (s, seq, h, trds) = h" "trades_of (s, seq, h, trds) = trds"
  by (simp_all add: store_of_def heap_of_def trades_of_def)

lemma numeric_fills_only:
  assumes "fills_only s s'"
  shows "numeric s' h = numeric s h"
  by (simp add: numeric_def fills_only_fields [OF assms])

lemma ask_heap_fills_only:
  assumes "fills_only s s'"
  shows "ask_heap s' h = ask_heap s h"
  by (simp add: ask_heap_def numeric_fills_only [OF assms] ask_before_fills_only [OF assms])

lemma bid_heap_fills_only:
  assumes "fills_only s s'"
  shows "bid_heap s' h = bid_heap s h"
  by (simp add: bid_heap_def numeric_fills_only [OF assms] bid_before_fills_only [OF assms])

lemma ask_heap_Nil [simp]: "ask_heap s []"
  by (simp add: ask_heap_def numeric_def is_heap_def heap_upto_def)

lemma bid_heap_Nil [simp]: "bid_heap s []"
  by (simp add: bid_heap_def numeric_def is_heap_def heap_upto_def)

lemma heap_Pop_ask_same:
  assumes "ask_heap s h"
  shows "ask_heap s (snd (heap_Pop (AskHeap_Less s) h))"
proof -
  let ?n = "numeric_store s"
  from assms have n: "numeric s h" and hp: "is_heap (ask_before ?n) h"
    by (auto simp: ask_heap_def ask_heap_numeric_store)
  have pop: "heap_Pop (AskHeap_Less s) h = heap_Pop (AskHeap_Less ?n) h"
  proof (rule heap_Pop_cong)
    fix g i j assume g: "set g = set h" "i < length g" "j < length g"
    then have "numeric s g" using n by (simp add: numeric_def)
    then show "AskHeap_Less s g i j = AskHeap_Less ?n g i j"
      using g by (simp add: AskHeap_Less_numeric)
  qed
  have "is_heap (ask_before ?n) (snd (heap_Pop (AskHeap_Less ?n) h))"
    using hp by (rule heap_Pop_heap [OF strict_weak_ask AskHeap_Less_before])
  moreover have "numeric s (snd (heap_Pop (AskHeap_Less s) h))"
    using n set_heap_Pop [of "AskHeap_Less s" h] by (auto simp: numeric_def)
  ultimately show ?thesis
    by (simp add: ask_heap_def ask_heap_numeric_store pop)
qed

lemma heap_Pop_bid_same:
  assumes "bid_heap s h"
  shows "bid_heap s (snd (heap_Pop (BidHeap_Less s) h))"
proof -
  let ?n = "numeric_store s"
  from assms have n: "numeric s h" and hp: "is_heap (bid_before ?n) h"
    by (auto simp: bid_heap_def bid_heap_numeric_store)
  have pop: "heap_Pop (BidHeap_Less s) h = heap_Pop (BidHeap_Less ?n) h"
  proof (rule heap_Pop_cong)
    fix g i j assume g: "set g = set h" "i < length g" "j < length g"
    then have "numeric s g" using n by (simp add: numeric_def)
    then show "BidHeap_Less s g i j = BidHeap_Less ?n g i j"
      using g by (simp add: BidHeap_Less_numeric)
  qed
  have "is_heap (bid_before ?n) (snd (heap_Pop (BidHeap_Less ?n) h))"
    using hp by (rule heap_Pop_heap [OF strict_weak_bid BidHeap_Less_before])
  moreover have "numeric s (snd (heap_Pop (BidHeap_Less s) h))"
    using n set_heap_Pop [of "BidHeap_Less s" h] by (auto simp: numeric_def)
  ultimately show ?thesis
    by (simp add: bid_heap_def bid_heap_numeric_store pop)
qed

lemma heap_Pop_ask:
  assumes "ask_heap s h" and "fills_only s s'"
  shows "ask_heap s' (snd (heap_Pop (AskHeap_Less s') h))"
  using assms(1) by (intro heap_Pop_ask_same) (simp add: ask_heap_fills_only [OF assms(2)])

lemma heap_Pop_bid:
  assumes "bid_heap s h" and "fills_only s s'"
  shows "bid_heap s' (snd (heap_Pop (BidHeap_Less s') h))"
  using assms(1) by (intro heap_Pop_bid_same) (simp add: bid_heap_fills_only [OF assms(2)])

lemma heap_Push_ask:
  assumes "ask_heap s h" and "Price (s a) \<noteq> NaN"
  shows "ask_heap s (heap_Push (AskHeap_Less s) h a)"
proof -
  let ?n = "numeric_store s"
  from assms have n: "numeric s h" and hp: "is_heap (ask_before ?n) h"
    by (auto simp: ask_heap_def ask_heap_numeric_store)
  have push: "heap_Push (AskHeap_Less s) h a = heap_Push (AskHeap_Less ?n) h a"
  proof (rule heap_Push_cong)
    fix g i j assume g: "set g = insert a (set h)" "i < length g" "j < length g"
    then have "numeric s g" using n assms(2) by (simp add: numeric_def)
    then show "AskHeap_Less s g i j = AskHeap_Less ?n g i j"
      using g by (simp add: AskHeap_Less_numeric)
  qed
  have "is_heap (ask_before ?n) (heap_Push (AskHeap_Less ?n) h a)"
    using hp by (rule heap_Push_heap [OF strict_weak_ask AskHeap_Less_before])
  moreover have "numeric s (heap_Push (AskHeap_Less s) h a)"
    using n assms(2) by (simp add: numeric_def set_heap_Push)
  ultimately show ?thesis
    by (simp add: ask_heap_def ask_heap_numeric_store push)
qed

lemma heap_Push_bid:
  assumes "bid_heap s h" and "Price (s a) \<noteq> NaN"
  shows "bid_heap s (heap_Push (BidHeap_Less s) h a)"
proof -
  let ?n = "numeric_store s"
  from assms have n: "numeric s h" and hp: "is_heap (bid_before ?n) h"
    by (auto simp: bid_heap_def bid_heap_numeric_store)
  have push: "heap_Push (BidHeap_Less s) h a = heap_Push (BidHeap_Less ?n) h a"
  proof (rule heap_Push_cong)
    fix g i j assume g: "set g = insert a (set h)" "i < length g" "j < length g"
    then have "numeric s g" using n assms(2) by (simp add: numeric_def)
    then show "BidHeap_Less s g i j = BidHeap_Less ?n g i j"
      using g by (simp add: BidHeap_Less_numeric)
  qed
  have "is_heap (bid_before ?n) (heap_Push (BidHeap_Less ?n) h a)"
    using hp by (rule heap_Push_heap [OF strict_weak_bid BidHeap_Less_before])
  moreover have "numeric s (heap_Push (BidHeap_Less s) h a)"
    using n assms(2) by (simp add: numeric_def set_heap_Push)
  ultimately show ?thesis
    by (simp add: bid_heap_def bid_heap_numeric_store push)
qed

text \<open>The top of a side that is in order: no entry of the side comes before it.\<close>

lemma ask_top_least:
  assumes "ask_heap s h" and "x \<in> set h"
  shows "\<not> ask_before s x (h ! 0)"
proof -
  from assms(2) obtain k where k: "k < length h" "x = h ! k"
    by (auto simp: in_set_conv_nth)
  from assms(1) have n: "numeric s h" and hp: "is_heap (ask_before (numeric_store s)) h"
    by (auto simp: ask_heap_def ask_heap_numeric_store)
  have top: "h ! 0 \<in> set h" using k(1) by (cases h) auto
  have "\<not> ask_before (numeric_store s) (h ! k) (h ! 0)"
    using hp k(1) heap_top_least [OF strict_weak_ask, of s h "length h" k]
    by (simp add: is_heap_def)
  moreover have "ask_before (numeric_store s) x (h ! 0) = ask_before s x (h ! 0)"
    by (simp add: ask_before_def numeric_store_same [OF n top] numeric_store_same [OF n assms(2)])
  ultimately show ?thesis
    by (simp add: k(2))
qed

lemma bid_top_least:
  assumes "bid_heap s h" and "x \<in> set h"
  shows "\<not> bid_before s x (h ! 0)"
proof -
  from assms(2) obtain k where k: "k < length h" "x = h ! k"
    by (auto simp: in_set_conv_nth)
  from assms(1) have n: "numeric s h" and hp: "is_heap (bid_before (numeric_store s)) h"
    by (auto simp: bid_heap_def bid_heap_numeric_store)
  have top: "h ! 0 \<in> set h" using k(1) by (cases h) auto
  have "\<not> bid_before (numeric_store s) (h ! k) (h ! 0)"
    using hp k(1) heap_top_least [OF strict_weak_bid, of s h "length h" k]
    by (simp add: is_heap_def)
  moreover have "bid_before (numeric_store s) x (h ! 0) = bid_before s x (h ! 0)"
    by (simp add: bid_before_def numeric_store_same [OF n top] numeric_store_same [OF n assms(2)])
  ultimately show ?thesis
    by (simp add: k(2))
qed

lemma ask_top_cheapest:
  assumes "ask_heap s h" and "x \<in> set h"
  shows "\<not> f_lt (Price (s x)) (Price (s (h ! 0)))"
proof -
  have "h ! 0 \<in> set h" using assms(2) by (cases h) auto
  then have "Price (s x) \<noteq> NaN" "Price (s (h ! 0)) \<noteq> NaN"
    using assms by (simp_all add: ask_heap_def numeric_def)
  then show ?thesis
    using ask_top_least [OF assms] by (auto simp: ask_before_def f_ne_numeric split: if_splits)
qed

lemma bid_top_dearest:
  assumes "bid_heap s h" and "x \<in> set h"
  shows "\<not> f_lt (Price (s (h ! 0))) (Price (s x))"
proof -
  have "h ! 0 \<in> set h" using assms(2) by (cases h) auto
  then have "Price (s x) \<noteq> NaN" "Price (s (h ! 0)) \<noteq> NaN"
    using assms by (simp_all add: bid_heap_def numeric_def)
  then show ?thesis
    using bid_top_least [OF assms] by (auto simp: bid_before_def f_ne_numeric f_gt_def split: if_splits)
qed

lemma matchBuy_body_cases:
  "(\<exists>st'. matchBuy_body symb a st = Continue st' \<and> buy_round a st st') \<or>
   (matchBuy_body symb a st = Break st \<and> IsActive (store_of st (heap_of st ! 0)) \<and>
    Type (store_of st a) = Limit \<and> f_lt (Price (store_of st a)) (Price (store_of st (heap_of st ! 0))))"
proof -
  obtain s seq h trds where st: "st = (s, seq, h, trds)"
    by (cases st) auto
  show ?thesis
  proof (cases "IsActive (s (h ! 0))")
    case False
    have "buy_round a (s, seq, h, trds) (s, seq, snd (heap_Pop (AskHeap_Less s) h), trds)"
      using set_heap_Pop [of "AskHeap_Less s" h] heap_Pop_ask [of s h s]
      by (simp add: buy_round_def)
    then show ?thesis
      using False by (simp add: st matchBuy_body_inactive)
  next
    case act: True
    show ?thesis
    proof (cases "Type (s a) = Limit \<and> f_lt (Price (s a)) (Price (s (h ! 0)))")
      case True
      then show ?thesis
        using act by (simp add: st matchBuy_body_gate)
    next
      case False
      define p where "p = h ! 0"
      define s2 where "s2 = fill2 s a p"
      define sF where "sF = s2(p := (s2 p)\<lparr>Status := StatusFilled\<rparr>)"
      define sP where "sP = s2(p := (s2 p)\<lparr>Status := StatusPartial\<rparr>)"
      have f2: "fills_only s s2" by (simp add: s2_def)
      have fF: "fills_only s sF"
        unfolding sF_def by (rule fills_only_trans [OF f2]) simp
      have fP: "fills_only s sP"
        unfolding sP_def by (rule fills_only_trans [OF f2]) simp
      have "\<exists>st'. matchBuy_body symb a (s, seq, h, trds) = Continue st' \<and>
          buy_round a (s, seq, h, trds) st'"
      proof (cases "IsFilled (s2 p)")
        case True
        have "buy_round a (s, seq, h, trds)
            (sF, seq + 1, snd (heap_Pop (AskHeap_Less sF) h),
             trds @ [\<lparr>Trade_ID = seq + 1, Trade_Symbol = symb, BuyOrderID = ID (s a),
               SellOrderID = ID (s p), Trade_Price = Price (s p),
               Trade_Quantity = min64 (Remaining (s a)) (Remaining (s p)),
               Trade_Timestamp = Timestamp (s a)\<rparr>])"
          using set_heap_Pop [of "AskHeap_Less sF" h] heap_Pop_ask [of s h sF] fF
          by (simp add: buy_round_def p_def)
        then show ?thesis
          using True matchBuy_body_trade [OF act False, of symb seq trds]
          by (simp add: Let_def p_def s2_def sF_def)
      next
        case nf: False
        have "buy_round a (s, seq, h, trds)
            (sP, seq + 1, h,
             trds @ [\<lparr>Trade_ID = seq + 1, Trade_Symbol = symb, BuyOrderID = ID (s a),
               SellOrderID = ID (s p), Trade_Price = Price (s p),
               Trade_Quantity = min64 (Remaining (s a)) (Remaining (s p)),
               Trade_Timestamp = Timestamp (s a)\<rparr>])"
          by (simp add: buy_round_def p_def ask_heap_fills_only [OF fP] fP)
        then show ?thesis
          using nf matchBuy_body_trade [OF act False, of symb seq trds]
          by (simp add: Let_def p_def s2_def sP_def)
      qed
      then show ?thesis by (simp add: st)
    qed
  qed
qed

lemma matchSell_body_cases:
  "(\<exists>st'. matchSell_body symb a st = Continue st' \<and> sell_round a st st') \<or>
   (matchSell_body symb a st = Break st \<and> IsActive (store_of st (heap_of st ! 0)) \<and>
    Type (store_of st a) = Limit \<and> f_gt (Price (store_of st a)) (Price (store_of st (heap_of st ! 0))))"
proof -
  obtain s seq h trds where st: "st = (s, seq, h, trds)"
    by (cases st) auto
  show ?thesis
  proof (cases "IsActive (s (h ! 0))")
    case False
    have "sell_round a (s, seq, h, trds) (s, seq, snd (heap_Pop (BidHeap_Less s) h), trds)"
      using set_heap_Pop [of "BidHeap_Less s" h] heap_Pop_bid [of s h s]
      by (simp add: sell_round_def)
    then show ?thesis
      using False by (simp add: st matchSell_body_inactive)
  next
    case act: True
    show ?thesis
    proof (cases "Type (s a) = Limit \<and> f_gt (Price (s a)) (Price (s (h ! 0)))")
      case True
      then show ?thesis
        using act by (simp add: st matchSell_body_gate)
    next
      case False
      define p where "p = h ! 0"
      define s2 where "s2 = fill2 s a p"
      define sF where "sF = s2(p := (s2 p)\<lparr>Status := StatusFilled\<rparr>)"
      define sP where "sP = s2(p := (s2 p)\<lparr>Status := StatusPartial\<rparr>)"
      have f2: "fills_only s s2" by (simp add: s2_def)
      have fF: "fills_only s sF"
        unfolding sF_def by (rule fills_only_trans [OF f2]) simp
      have fP: "fills_only s sP"
        unfolding sP_def by (rule fills_only_trans [OF f2]) simp
      have "\<exists>st'. matchSell_body symb a (s, seq, h, trds) = Continue st' \<and>
          sell_round a (s, seq, h, trds) st'"
      proof (cases "IsFilled (s2 p)")
        case True
        have "sell_round a (s, seq, h, trds)
            (sF, seq + 1, snd (heap_Pop (BidHeap_Less sF) h),
             trds @ [\<lparr>Trade_ID = seq + 1, Trade_Symbol = symb, BuyOrderID = ID (s p),
               SellOrderID = ID (s a), Trade_Price = Price (s p),
               Trade_Quantity = min64 (Remaining (s a)) (Remaining (s p)),
               Trade_Timestamp = Timestamp (s a)\<rparr>])"
          using set_heap_Pop [of "BidHeap_Less sF" h] heap_Pop_bid [of s h sF] fF
          by (simp add: sell_round_def p_def)
        then show ?thesis
          using True matchSell_body_trade [OF act False, of symb seq trds]
          by (simp add: Let_def p_def s2_def sF_def)
      next
        case nf: False
        have "sell_round a (s, seq, h, trds)
            (sP, seq + 1, h,
             trds @ [\<lparr>Trade_ID = seq + 1, Trade_Symbol = symb, BuyOrderID = ID (s p),
               SellOrderID = ID (s a), Trade_Price = Price (s p),
               Trade_Quantity = min64 (Remaining (s a)) (Remaining (s p)),
               Trade_Timestamp = Timestamp (s a)\<rparr>])"
          by (simp add: sell_round_def p_def bid_heap_fills_only [OF fP] fP)
        then show ?thesis
          using nf matchSell_body_trade [OF act False, of symb seq trds]
          by (simp add: Let_def p_def s2_def sP_def)
      qed
      then show ?thesis by (simp add: st)
    qed
  qed
qed

lemma buy_run_stop: "\<not> matchBuy_guard a st \<Longrightarrow> buy_run a st st"
  by (cases st) (auto simp: buy_run_def matchBuy_guard_def)

lemma sell_run_stop: "\<not> matchSell_guard a st \<Longrightarrow> sell_run a st st"
  by (cases st) (auto simp: sell_run_def matchSell_guard_def)

lemma buy_run_break:
  assumes "IsActive (store_of st (heap_of st ! 0))" and "Type (store_of st a) = Limit"
    and "f_lt (Price (store_of st a)) (Price (store_of st (heap_of st ! 0)))"
  shows "buy_run a st st"
proof -
  have "f_lt (Price (store_of st a)) (Price (store_of st x))"
    if "ask_heap (store_of st) (heap_of st)" "x \<in> set (heap_of st)" for x
  proof -
    have "Price (store_of st x) \<noteq> NaN"
      using that by (simp add: ask_heap_def numeric_def)
    then show ?thesis
      using ask_top_cheapest [OF that] assms(3) f_lt_le_trans by blast
  qed
  then show ?thesis
    using assms(2) by (simp add: buy_run_def)
qed

lemma sell_run_break:
  assumes "IsActive (store_of st (heap_of st ! 0))" and "Type (store_of st a) = Limit"
    and "f_gt (Price (store_of st a)) (Price (store_of st (heap_of st ! 0)))"
  shows "sell_run a st st"
proof -
  have "f_lt (Price (store_of st x)) (Price (store_of st a))"
    if "bid_heap (store_of st) (heap_of st)" "x \<in> set (heap_of st)" for x
  proof -
    have "Price (store_of st x) \<noteq> NaN"
      using that by (simp add: bid_heap_def numeric_def)
    then show ?thesis
      using bid_top_dearest [OF that] assms(3) f_le_lt_trans unfolding f_gt_def by blast
  qed
  then show ?thesis
    using assms(2) by (simp add: sell_run_def)
qed

lemma buy_run_step:
  assumes g: "matchBuy_guard a st" and r: "buy_round a st st'" and run: "buy_run a st' st''"
  shows "buy_run a st st''"
proof -
  from r have f1: "fills_only (store_of st) (store_of st')"
    and sub1: "set (heap_of st') \<subseteq> set (heap_of st)"
    and hp1: "ask_heap (store_of st) (heap_of st) \<Longrightarrow>
        ask_heap (store_of st') (heap_of st')"
    and tr1: "trades_of st' = trades_of st \<or>
      (\<exists>t. trades_of st' = trades_of st @ [t] \<and>
           Trade_Price t = Price (store_of st (heap_of st ! 0)) \<and>
           SellOrderID t = ID (store_of st (heap_of st ! 0)) \<and>
           BuyOrderID t = ID (store_of st a))"
    by (simp_all add: buy_round_def)
  from run have f2: "fills_only (store_of st') (store_of st'')"
    and sub2: "set (heap_of st'') \<subseteq> set (heap_of st')"
    and hp2: "ask_heap (store_of st') (heap_of st') \<Longrightarrow>
        ask_heap (store_of st'') (heap_of st'') \<and>
        (0 <s Remaining (store_of st'' a) \<longrightarrow>
           (\<forall>x \<in> set (heap_of st'').
              Type (store_of st'' a) = Limit \<and> f_lt (Price (store_of st'' a)) (Price (store_of st'' x))))"
    and ty2: "Type (store_of st' a) \<noteq> Limit \<Longrightarrow>
        heap_of st'' = [] \<or> \<not> 0 <s Remaining (store_of st'' a)"
    by (simp_all add: buy_run_def)
  from run obtain new where new: "trades_of st'' = trades_of st' @ new"
    and each: "\<forall>t \<in> set new. \<exists>p \<in> set (heap_of st').
           Trade_Price t = Price (store_of st' p) \<and> SellOrderID t = ID (store_of st' p) \<and>
           BuyOrderID t = ID (store_of st' a)"
    by (auto simp: buy_run_def)
  have top: "heap_of st ! 0 \<in> set (heap_of st)"
    using g by (cases st) (simp add: matchBuy_guard_def)
  have each': "\<exists>p \<in> set (heap_of st).
           Trade_Price t = Price (store_of st p) \<and> SellOrderID t = ID (store_of st p) \<and>
           BuyOrderID t = ID (store_of st a)" if "t \<in> set new" for t
  proof -
    from each that obtain p where "p \<in> set (heap_of st')"
      "Trade_Price t = Price (store_of st' p)" "SellOrderID t = ID (store_of st' p)"
      "BuyOrderID t = ID (store_of st' a)"
      by blast
    then have "p \<in> set (heap_of st) \<and>
           Trade_Price t = Price (store_of st p) \<and> SellOrderID t = ID (store_of st p) \<and>
           BuyOrderID t = ID (store_of st a)"
      using sub1 by (auto simp: fills_only_fields [OF f1])
    then show ?thesis by blast
  qed
  have trades: "\<exists>new. trades_of st'' = trades_of st @ new \<and>
        (\<forall>t \<in> set new. \<exists>p \<in> set (heap_of st).
           Trade_Price t = Price (store_of st p) \<and> SellOrderID t = ID (store_of st p) \<and>
           BuyOrderID t = ID (store_of st a))"
    using tr1
  proof
    assume "trades_of st' = trades_of st"
    then have "trades_of st'' = trades_of st @ new" by (simp add: new)
    then show ?thesis using each' by blast
  next
    assume "\<exists>t. trades_of st' = trades_of st @ [t] \<and>
           Trade_Price t = Price (store_of st (heap_of st ! 0)) \<and>
           SellOrderID t = ID (store_of st (heap_of st ! 0)) \<and>
           BuyOrderID t = ID (store_of st a)"
    then obtain t where t: "trades_of st' = trades_of st @ [t]"
      "Trade_Price t = Price (store_of st (heap_of st ! 0))"
      "SellOrderID t = ID (store_of st (heap_of st ! 0))"
      "BuyOrderID t = ID (store_of st a)"
      by blast
    have "trades_of st'' = trades_of st @ (t # new)" by (simp add: new t(1))
    moreover have "\<forall>u \<in> set (t # new). \<exists>p \<in> set (heap_of st).
           Trade_Price u = Price (store_of st p) \<and> SellOrderID u = ID (store_of st p) \<and>
           BuyOrderID u = ID (store_of st a)"
      using t top each' by auto
    ultimately show ?thesis by blast
  qed
  have "fills_only (store_of st) (store_of st'')"
    using f1 f2 by (rule fills_only_trans)
  moreover have "set (heap_of st'') \<subseteq> set (heap_of st)"
    using sub1 sub2 by blast
  moreover have "Type (store_of st a) \<noteq> Limit \<longrightarrow>
        heap_of st'' = [] \<or> \<not> 0 <s Remaining (store_of st'' a)"
    using ty2 by (simp add: fills_only_fields [OF f1])
  ultimately show ?thesis
    unfolding buy_run_def using hp1 hp2 trades by blast
qed

lemma matchBuy_loop_run: "buy_run a st (matchBuy_loop symb a st)"
proof (induction symb a st rule: matchBuy_loop.induct)
  case (1 symb a st)
  show ?case
  proof (cases "matchBuy_guard a st")
    case False
    then show ?thesis
      by (subst matchBuy_loop.simps) (simp add: buy_run_stop)
  next
    case True
    from matchBuy_body_cases [of symb a st] show ?thesis
    proof
      assume "\<exists>st'. matchBuy_body symb a st = Continue st' \<and> buy_round a st st'"
      then obtain st' where body: "matchBuy_body symb a st = Continue st'"
        and round: "buy_round a st st'"
        by blast
      have "buy_run a st' (matchBuy_loop symb a st')"
        using True body by (rule 1)
      with True round have "buy_run a st (matchBuy_loop symb a st')"
        by (rule buy_run_step)
      then show ?thesis
        using True body by (subst matchBuy_loop.simps) simp
    next
      assume brk: "matchBuy_body symb a st = Break st \<and> IsActive (store_of st (heap_of st ! 0)) \<and>
        Type (store_of st a) = Limit \<and> f_lt (Price (store_of st a)) (Price (store_of st (heap_of st ! 0)))"
      then have "buy_run a st st"
        by (simp add: buy_run_break)
      then show ?thesis
        using True brk by (subst matchBuy_loop.simps) simp
    qed
  qed
qed

lemma sell_run_step:
  assumes g: "matchSell_guard a st" and r: "sell_round a st st'" and run: "sell_run a st' st''"
  shows "sell_run a st st''"
proof -
  from r have f1: "fills_only (store_of st) (store_of st')"
    and sub1: "set (heap_of st') \<subseteq> set (heap_of st)"
    and hp1: "bid_heap (store_of st) (heap_of st) \<Longrightarrow>
        bid_heap (store_of st') (heap_of st')"
    and tr1: "trades_of st' = trades_of st \<or>
      (\<exists>t. trades_of st' = trades_of st @ [t] \<and>
           Trade_Price t = Price (store_of st (heap_of st ! 0)) \<and>
           BuyOrderID t = ID (store_of st (heap_of st ! 0)) \<and>
           SellOrderID t = ID (store_of st a))"
    by (simp_all add: sell_round_def)
  from run have f2: "fills_only (store_of st') (store_of st'')"
    and sub2: "set (heap_of st'') \<subseteq> set (heap_of st')"
    and hp2: "bid_heap (store_of st') (heap_of st') \<Longrightarrow>
        bid_heap (store_of st'') (heap_of st'') \<and>
        (0 <s Remaining (store_of st'' a) \<longrightarrow>
           (\<forall>x \<in> set (heap_of st'').
              Type (store_of st'' a) = Limit \<and> f_lt (Price (store_of st'' x)) (Price (store_of st'' a))))"
    and ty2: "Type (store_of st' a) \<noteq> Limit \<Longrightarrow>
        heap_of st'' = [] \<or> \<not> 0 <s Remaining (store_of st'' a)"
    by (simp_all add: sell_run_def)
  from run obtain new where new: "trades_of st'' = trades_of st' @ new"
    and each: "\<forall>t \<in> set new. \<exists>p \<in> set (heap_of st').
           Trade_Price t = Price (store_of st' p) \<and> BuyOrderID t = ID (store_of st' p) \<and>
           SellOrderID t = ID (store_of st' a)"
    by (auto simp: sell_run_def)
  have top: "heap_of st ! 0 \<in> set (heap_of st)"
    using g by (cases st) (simp add: matchSell_guard_def)
  have each': "\<exists>p \<in> set (heap_of st).
           Trade_Price t = Price (store_of st p) \<and> BuyOrderID t = ID (store_of st p) \<and>
           SellOrderID t = ID (store_of st a)" if "t \<in> set new" for t
  proof -
    from each that obtain p where "p \<in> set (heap_of st')"
      "Trade_Price t = Price (store_of st' p)" "BuyOrderID t = ID (store_of st' p)"
      "SellOrderID t = ID (store_of st' a)"
      by blast
    then have "p \<in> set (heap_of st) \<and>
           Trade_Price t = Price (store_of st p) \<and> BuyOrderID t = ID (store_of st p) \<and>
           SellOrderID t = ID (store_of st a)"
      using sub1 by (auto simp: fills_only_fields [OF f1])
    then show ?thesis by blast
  qed
  have trades: "\<exists>new. trades_of st'' = trades_of st @ new \<and>
        (\<forall>t \<in> set new. \<exists>p \<in> set (heap_of st).
           Trade_Price t = Price (store_of st p) \<and> BuyOrderID t = ID (store_of st p) \<and>
           SellOrderID t = ID (store_of st a))"
    using tr1
  proof
    assume "trades_of st' = trades_of st"
    then have "trades_of st'' = trades_of st @ new" by (simp add: new)
    then show ?thesis using each' by blast
  next
    assume "\<exists>t. trades_of st' = trades_of st @ [t] \<and>
           Trade_Price t = Price (store_of st (heap_of st ! 0)) \<and>
           BuyOrderID t = ID (store_of st (heap_of st ! 0)) \<and>
           SellOrderID t = ID (store_of st a)"
    then obtain t where t: "trades_of st' = trades_of st @ [t]"
      "Trade_Price t = Price (store_of st (heap_of st ! 0))"
      "BuyOrderID t = ID (store_of st (heap_of st ! 0))"
      "SellOrderID t = ID (store_of st a)"
      by blast
    have "trades_of st'' = trades_of st @ (t # new)" by (simp add: new t(1))
    moreover have "\<forall>u \<in> set (t # new). \<exists>p \<in> set (heap_of st).
           Trade_Price u = Price (store_of st p) \<and> BuyOrderID u = ID (store_of st p) \<and>
           SellOrderID u = ID (store_of st a)"
      using t top each' by auto
    ultimately show ?thesis by blast
  qed
  have "fills_only (store_of st) (store_of st'')"
    using f1 f2 by (rule fills_only_trans)
  moreover have "set (heap_of st'') \<subseteq> set (heap_of st)"
    using sub1 sub2 by blast
  moreover have "Type (store_of st a) \<noteq> Limit \<longrightarrow>
        heap_of st'' = [] \<or> \<not> 0 <s Remaining (store_of st'' a)"
    using ty2 by (simp add: fills_only_fields [OF f1])
  ultimately show ?thesis
    unfolding sell_run_def using hp1 hp2 trades by blast
qed

lemma matchSell_loop_run: "sell_run a st (matchSell_loop symb a st)"
proof (induction symb a st rule: matchSell_loop.induct)
  case (1 symb a st)
  show ?case
  proof (cases "matchSell_guard a st")
    case False
    then show ?thesis
      by (subst matchSell_loop.simps) (simp add: sell_run_stop)
  next
    case True
    from matchSell_body_cases [of symb a st] show ?thesis
    proof
      assume "\<exists>st'. matchSell_body symb a st = Continue st' \<and> sell_round a st st'"
      then obtain st' where body: "matchSell_body symb a st = Continue st'"
        and round: "sell_round a st st'"
        by blast
      have "sell_run a st' (matchSell_loop symb a st')"
        using True body by (rule 1)
      with True round have "sell_run a st (matchSell_loop symb a st')"
        by (rule sell_run_step)
      then show ?thesis
        using True body by (subst matchSell_loop.simps) simp
    next
      assume brk: "matchSell_body symb a st = Break st \<and> IsActive (store_of st (heap_of st ! 0)) \<and>
        Type (store_of st a) = Limit \<and> f_gt (Price (store_of st a)) (Price (store_of st (heap_of st ! 0)))"
      then have "sell_run a st st"
        by (simp add: sell_run_break)
      then show ?thesis
        using True brk by (subst matchSell_loop.simps) simp
    qed
  qed
qed

section \<open>The invariant of the books\<close>

lemma book_ok_fills_only:
  assumes "fills_only s s'" and "book_ok s ob"
  shows "book_ok s' ob"
  using assms(2)
  by (simp add: book_ok_def fills_only_fields [OF assms(1)] ask_heap_fills_only [OF assms(1)]
        bid_heap_fills_only [OF assms(1)])

lemma Remaining_Status [simp]: "Remaining (x\<lparr>Status := v\<rparr>) = Remaining x"
  by (simp add: Remaining_def)

lemma finalizeOrder_cases:
  assumes "finalizeOrder Less s a book = (s', book')"
  shows "fills_only s s' \<and>
    (book' = book \<or>
     (Type (s a) = Limit \<and> 0 <s Remaining (s a) \<and> book' = heap_Push (Less s') book a))"
  using assms
  by (auto simp: finalizeOrder_def Let_def split: if_splits)

lemma finalizeOrder_IOC:
  assumes "finalizeOrder Less s a book = (s', book')" and "Type (s a) = IOC"
  shows "book' = book \<and> Remaining (s' a) = Remaining (s a) \<and>
    (Status (s' a) = StatusFilled \<or> Status (s' a) = StatusCancelled)"
  using assms
  by (auto simp: finalizeOrder_def Let_def split: if_splits)

lemma matchBuy_ok:
  assumes ok: "book_ok s ob" and side: "Side (s a) = Buy"
    and num: "\<not> (Type (s a) = Limit \<and> Price (s a) = NaN)"
    and m: "matchBuy s seq ob a = (trds, s', seq', ob')"
  shows "fills_only s s' \<and> book_ok s' ob'"
proof -
  obtain s1 seq1 asks1 trds1 where loop:
    "matchBuy_loop (symbol ob) a (s, seq, asks ob, []) = (s1, seq1, asks1, trds1)"
    by (cases "matchBuy_loop (symbol ob) a (s, seq, asks ob, [])") auto
  obtain s2 bids2 where fin: "finalizeOrder BidHeap_Less s1 a (bids ob) = (s2, bids2)"
    by (cases "finalizeOrder BidHeap_Less s1 a (bids ob)") auto
  from m loop fin have res: "s' = s2" "ob' = ob\<lparr>bids := bids2, asks := asks1\<rparr>"
    by (simp_all add: matchBuy_def)
  have run: "buy_run a (s, seq, asks ob, []) (s1, seq1, asks1, trds1)"
    using matchBuy_loop_run [of a "(s, seq, asks ob, [])" "symbol ob"] loop by simp
  have hp: "ask_heap s (asks ob)"
    using ok by (simp add: book_ok_def)
  from run hp have f1: "fills_only s s1" and sub: "set asks1 \<subseteq> set (asks ob)"
    and hp1: "ask_heap s1 asks1"
    and gate: "0 <s Remaining (s1 a) \<Longrightarrow> \<forall>x \<in> set asks1. f_lt (Price (s1 a)) (Price (s1 x))"
    by (simp_all add: buy_run_def)
  from finalizeOrder_cases [OF fin] have f2: "fills_only s1 s2"
    and rest: "bids2 = bids ob \<or>
      (Type (s1 a) = Limit \<and> 0 <s Remaining (s1 a) \<and>
       bids2 = heap_Push (BidHeap_Less s2) (bids ob) a)"
    by auto
  have f: "fills_only s s2" using f1 f2 by (rule fills_only_trans)
  have ok2: "book_ok s2 ob" using f ok by (rule book_ok_fills_only)
  have asks_ok: "ask_heap s2 asks1"
    using hp1 by (simp add: ask_heap_fills_only [OF f2])
  have "book_ok s2 (ob\<lparr>bids := bids2, asks := asks1\<rparr>)"
    using rest
  proof
    assume "bids2 = bids ob"
    then show ?thesis
      using ok2 sub asks_ok by (auto simp: book_ok_def)
  next
    assume push: "Type (s1 a) = Limit \<and> 0 <s Remaining (s1 a) \<and>
       bids2 = heap_Push (BidHeap_Less s2) (bids ob) a"
    have pn: "Price (s2 a) \<noteq> NaN"
      using push num by (simp add: fills_only_fields [OF f] fills_only_fields [OF f1])
    have "bid_heap s2 (bids ob)"
      using ok2 by (simp add: book_ok_def)
    then have h: "bid_heap s2 bids2"
      using push pn heap_Push_bid [of s2 "bids ob" a] by simp
    have st: "set bids2 = insert a (set (bids ob))"
      using push by (simp add: set_heap_Push)
    have below: "\<forall>x \<in> set asks1. f_lt (Price (s2 a)) (Price (s2 x))"
      using gate push by (simp add: fills_only_fields [OF f2])
    have "Side (s2 a) = Buy"
      using side by (simp add: fills_only_fields [OF f])
    then show ?thesis
      using ok2 sub asks_ok h st below by (auto simp: book_ok_def)
  qed
  then show ?thesis using f by (simp add: res)
qed

lemma matchSell_ok:
  assumes ok: "book_ok s ob" and side: "Side (s a) = Sell"
    and num: "\<not> (Type (s a) = Limit \<and> Price (s a) = NaN)"
    and m: "matchSell s seq ob a = (trds, s', seq', ob')"
  shows "fills_only s s' \<and> book_ok s' ob'"
proof -
  obtain s1 seq1 bids1 trds1 where loop:
    "matchSell_loop (symbol ob) a (s, seq, bids ob, []) = (s1, seq1, bids1, trds1)"
    by (cases "matchSell_loop (symbol ob) a (s, seq, bids ob, [])") auto
  obtain s2 asks2 where fin: "finalizeOrder AskHeap_Less s1 a (asks ob) = (s2, asks2)"
    by (cases "finalizeOrder AskHeap_Less s1 a (asks ob)") auto
  from m loop fin have res: "s' = s2" "ob' = ob\<lparr>bids := bids1, asks := asks2\<rparr>"
    by (simp_all add: matchSell_def)
  have run: "sell_run a (s, seq, bids ob, []) (s1, seq1, bids1, trds1)"
    using matchSell_loop_run [of a "(s, seq, bids ob, [])" "symbol ob"] loop by simp
  have hp: "bid_heap s (bids ob)"
    using ok by (simp add: book_ok_def)
  from run hp have f1: "fills_only s s1" and sub: "set bids1 \<subseteq> set (bids ob)"
    and hp1: "bid_heap s1 bids1"
    and gate: "0 <s Remaining (s1 a) \<Longrightarrow> \<forall>x \<in> set bids1. f_lt (Price (s1 x)) (Price (s1 a))"
    by (simp_all add: sell_run_def)
  from finalizeOrder_cases [OF fin] have f2: "fills_only s1 s2"
    and rest: "asks2 = asks ob \<or>
      (Type (s1 a) = Limit \<and> 0 <s Remaining (s1 a) \<and>
       asks2 = heap_Push (AskHeap_Less s2) (asks ob) a)"
    by auto
  have f: "fills_only s s2" using f1 f2 by (rule fills_only_trans)
  have ok2: "book_ok s2 ob" using f ok by (rule book_ok_fills_only)
  have bids_ok: "bid_heap s2 bids1"
    using hp1 by (simp add: bid_heap_fills_only [OF f2])
  have "book_ok s2 (ob\<lparr>bids := bids1, asks := asks2\<rparr>)"
    using rest
  proof
    assume "asks2 = asks ob"
    then show ?thesis
      using ok2 sub bids_ok by (auto simp: book_ok_def)
  next
    assume push: "Type (s1 a) = Limit \<and> 0 <s Remaining (s1 a) \<and>
       asks2 = heap_Push (AskHeap_Less s2) (asks ob) a"
    have pn: "Price (s2 a) \<noteq> NaN"
      using push num by (simp add: fills_only_fields [OF f] fills_only_fields [OF f1])
    have "ask_heap s2 (asks ob)"
      using ok2 by (simp add: book_ok_def)
    then have h: "ask_heap s2 asks2"
      using push pn heap_Push_ask [of s2 "asks ob" a] by simp
    have st: "set asks2 = insert a (set (asks ob))"
      using push by (simp add: set_heap_Push)
    have below: "\<forall>x \<in> set bids1. f_lt (Price (s2 x)) (Price (s2 a))"
      using gate push by (simp add: fills_only_fields [OF f2])
    have "Side (s2 a) = Sell"
      using side by (simp add: fills_only_fields [OF f])
    then show ?thesis
      using ok2 sub bids_ok h st below by (auto simp: book_ok_def)
  qed
  then show ?thesis using f by (simp add: res)
qed

lemma ob_Submit_ok:
  assumes "book_ok s ob" and "\<not> (Type (s a) = Limit \<and> Price (s a) = NaN)"
    and "ob_Submit s seq ob a = (trds, s', seq', ob')"
  shows "fills_only s s' \<and> book_ok s' ob'"
proof (cases "Side (s a) = Buy")
  case True
  with assms show ?thesis
    using matchBuy_ok [of s ob a seq trds s' seq' ob'] by (simp add: ob_Submit_def ob_match_def)
next
  case nb: False
  show ?thesis
  proof (cases "Side (s a) = Sell")
    case True
    with assms nb show ?thesis
      using matchSell_ok [of s ob a seq trds s' seq' ob'] by (simp add: ob_Submit_def ob_match_def)
  next
    case False
    with assms nb show ?thesis
      by (simp add: ob_Submit_def ob_match_def)
  qed
qed

lemma books_ok_fills_only:
  assumes "books_ok w" and "fills_only (store w) s'"
  shows "books_ok (w\<lparr>store := s'\<rparr>)"
  using assms book_ok_fills_only by (auto simp: books_ok_def)

lemma gw_Submit_ok:
  assumes ok: "books_ok w" and num: "\<not> nan_limit (store w) p" and sub: "gw_Submit w p = (r, w')"
  shows "books_ok w'"
proof (cases p)
  case None
  with sub have "w' = w" by (simp add: gw_Submit_def validateOrder_def)
  with ok show ?thesis by simp
next
  case (Some a)
  have rej: "books_ok (reject w a)"
    unfolding reject_def by (rule books_ok_fills_only [OF ok]) simp
  show ?thesis
  proof (cases "validateOrder (store w) (Some a)")
    case (Some err)
    with sub \<open>p = Some a\<close> have "w' = reject w a" by (auto simp: gw_Submit_def)
    with rej show ?thesis by simp
  next
    case None
    show ?thesis
    proof (cases "books w (Symbol (store w a))")
      case nobook: None
      with sub \<open>p = Some a\<close> None have "w' = reject w a" by (auto simp: gw_Submit_def)
      with rej show ?thesis by simp
    next
      case (Some book)
      obtain trds s' seq' book' where
        m: "ob_Submit (store w) (globalTradeSeq w) book a = (trds, s', seq', book')"
        by (cases "ob_Submit (store w) (globalTradeSeq w) book a") auto
      have bok: "book_ok (store w) book"
        using ok Some by (auto simp: books_ok_def)
      have "\<not> (Type (store w a) = Limit \<and> Price (store w a) = NaN)"
        using num \<open>p = Some a\<close> by (simp add: nan_limit_def)
      from ob_Submit_ok [OF bok this m] have f: "fills_only (store w) s'" and bok': "book_ok s' book'"
        by auto
      have st: "store w' = s'" and bk: "books w' = (books w)(Symbol (store w a) \<mapsto> book')"
        using sub \<open>p = Some a\<close> None Some m by (auto simp: gw_Submit_def)
      show ?thesis
        unfolding books_ok_def
      proof (intro allI impI)
        fix symb ob assume "books w' symb = Some ob"
        then have "ob = book' \<or> books w symb = Some ob"
          by (auto simp: bk split: if_splits)
        then show "book_ok (store w') ob"
        proof
          assume "ob = book'"
          then show ?thesis using bok' st by simp
        next
          assume "books w symb = Some ob"
          then have "book_ok (store w) ob" using ok by (auto simp: books_ok_def)
          then show ?thesis using f st book_ok_fills_only by simp
        qed
      qed
    qed
  qed
qed

lemma gw_Cancel_ok:
  assumes ok: "books_ok w" and c: "gw_Cancel w symb i = (e, w')"
  shows "books_ok w'"
proof (cases "books w symb")
  case None
  with c have "w' = w" by (simp add: gw_Cancel_def)
  with ok show ?thesis by simp
next
  case (Some ob)
  have w': "w' = w\<lparr>store := snd (ob_Cancel (store w) ob i)\<rparr>"
    using c Some by (auto simp: gw_Cancel_def split: prod.splits if_splits)
  have "fills_only (store w) (snd (ob_Cancel (store w) ob i))"
    using ob_Cancel_frame [of "store w" ob i] by auto
  then show ?thesis
    unfolding w' by (rule books_ok_fills_only [OF ok])
qed

lemma NewGateway_books:
  "foldl (\<lambda>m x. m(x \<mapsto> NewOrderBook x)) m0 symbols symb = Some ob \<Longrightarrow>
     ob = NewOrderBook symb \<or> m0 symb = Some ob"
proof (induction symbols arbitrary: m0)
  case Nil
  then show ?case by simp
next
  case (Cons x xs)
  from Cons.prems have "foldl (\<lambda>m x. m(x \<mapsto> NewOrderBook x)) (m0(x \<mapsto> NewOrderBook x)) xs symb = Some ob"
    by (simp only: foldl_Cons)
  then have "ob = NewOrderBook symb \<or> (m0(x \<mapsto> NewOrderBook x)) symb = Some ob"
    by (rule Cons.IH)
  then show ?case
    by (auto split: if_splits)
qed

lemma NewGateway_ok: "books_ok (NewGateway s seq symbols lg)"
proof -
  have "book_ok s (NewOrderBook symb)" for symb
    by (simp add: book_ok_def NewOrderBook_def)
  then show ?thesis
    using NewGateway_books [of Map.empty symbols]
    by (auto simp: books_ok_def NewGateway_def)
qed

lemma reachable_books_ok: "reachable_numeric w \<Longrightarrow> books_ok w"
proof (induction rule: reachable_numeric.induct)
  case (numeric_init w s seq symbols lg)
  then show ?case by (simp add: NewGateway_ok)
next
  case (numeric_Submit w p r w')
  then show ?case using gw_Submit_ok by blast
next
  case (numeric_Cancel w symb orderID e w')
  then show ?case using gw_Cancel_ok by blast
qed

lemma reachable_numeric_reachable: "reachable_numeric w \<Longrightarrow> reachable w"
  by (induction rule: reachable_numeric.induct) (auto intro: reachable.intros)

section \<open>Running the model on concrete states\<close>

text \<open>The definitions that the simplifier unfolds to run a submit or a cancel.\<close>

lemmas run_defs =
  gw_Submit_def validateOrder_def reject_def ob_Submit_def ob_match_def
  matchBuy_def matchSell_def matchBuy_loop.simps matchSell_loop.simps
  matchBuy_guard_def matchSell_guard_def matchBuy_body_def matchSell_body_def
  finalizeOrder_def heap_Push_def heap_Pop_def up.simps down.simps Swap_def
  AskHeap_Less_def BidHeap_Less_def newTrade_def nextTradeID_def min64_def
  Remaining_def IsFilled_def IsActive_def AddAll_def NewTradeLog_def
  NewGateway_def NewOrderBook_def NewLimitOrder_def NewMarketOrder_def
  gw_Cancel_def ob_Cancel_def Book_def BestBid_def BestAsk_def
  f_gt_def f_ne_def f_eq_def f_le_def nan_limit_def
  word_sless_alt word_sle_eq Let_def

lemma reachable_after_two:
  assumes "\<not> nan_limit s (Some 1)"
    and "\<not> nan_limit (store (snd (gw_Submit (NewGateway s seq symbols lg) (Some 1)))) (Some 2)"
  shows "reachable_numeric (after_two (NewGateway s seq symbols lg))"
proof -
  have r: "reachable_numeric (NewGateway s seq symbols lg)"
    by (rule numeric_init) simp
  have n: "\<not> nan_limit (store (NewGateway s seq symbols lg)) (Some 1)"
    using assms(1) by (simp add: NewGateway_def)
  from r n have "reachable_numeric (snd (gw_Submit (NewGateway s seq symbols lg) (Some 1)))"
    by (rule numeric_Submit) (rule prod.collapse [symmetric])
  then show ?thesis
    unfolding after_two_def using assms(2) by (rule numeric_Submit) (rule prod.collapse [symmetric])
qed

lemma reachable_submit_all: "reachable w \<Longrightarrow> reachable (submit_all w ps)"
proof (induction ps arbitrary: w)
  case Nil
  then show ?case by (simp add: submit_all_def)
next
  case (Cons a ps)
  have "reachable (snd (gw_Submit w (Some a)))"
    using Cons.prems by (rule reachable_Submit) (rule prod.collapse [symmetric])
  then have "reachable (submit_all (snd (gw_Submit w (Some a))) ps)"
    by (rule Cons.IH)
  then show ?case by (simp add: submit_all_def)
qed

lemma BestBid_present:
  "BestBid s ob = (p, True) \<longleftrightarrow> bids ob \<noteq> [] \<and> IsActive (s (bids ob ! 0)) \<and> p = Price (s (bids ob ! 0))"
  by (auto simp: BestBid_def Let_def)

lemma BestAsk_present:
  "BestAsk s ob = (p, True) \<longleftrightarrow> asks ob \<noteq> [] \<and> IsActive (s (asks ob ! 0)) \<and> p = Price (s (asks ob ! 0))"
  by (auto simp: BestAsk_def Let_def)

text \<open>
  The run of the gateway on the four bids at 70, NaN, 60 and 80 and the two asks at 75
  and 70: every order is accepted; the bid at 80 stays below the bids at 70 and NaN in the
  heap; the ask at 75 meets the top bid at 70 and rests; the ask at 70 trades with the bid
  at 70, which leaves the heap.
\<close>

lemma nan_state4_book:
  "Book nan_state4 ''AAPL'' = Some \<lparr>symbol = ''AAPL'', bids = [1, 2, 3, 4], asks = []\<rparr>"
  by (simp add: run_defs nan_state4_def submit_all_def nan_orders_def)

lemma nan_state5_book:
  "Book nan_state5 ''AAPL'' = Some \<lparr>symbol = ''AAPL'', bids = [1, 2, 3, 4], asks = [5]\<rparr>"
  by (simp add: run_defs nan_state5_def nan_state4_def submit_all_def nan_orders_def)

lemma nan_state6_book:
  "Book nan_state6 ''AAPL'' = Some \<lparr>symbol = ''AAPL'', bids = [4, 2, 3], asks = [5]\<rparr>"
  by (simp add: run_defs nan_state6_def nan_state5_def nan_state4_def submit_all_def nan_orders_def)

lemma nan_state6_results:
  "fst (gw_Submit (submit_all (NewGateway nan_orders 0 [''AAPL''] (Some NewTradeLog)) [1]) (Some 2)) = Inr [] \<and>
   fst (gw_Submit nan_state4 (Some 5)) = Inr [] \<and>
   fst (gw_Submit nan_state5 (Some 6)) =
     Inr [\<lparr>Trade_ID = 1, Trade_Symbol = ''AAPL'', BuyOrderID = 1, SellOrderID = 6,
           Trade_Price = Finite 70, Trade_Quantity = 100, Trade_Timestamp = 6000\<rparr>]"
  by (simp add: run_defs nan_state5_def nan_state4_def submit_all_def nan_orders_def)

lemma nan_state6_orders:
  "Price (store nan_state6 4) = Finite 80 \<and> IsActive (store nan_state6 4) \<and>
   Price (store nan_state6 5) = Finite 75 \<and> IsActive (store nan_state6 5) \<and>
   Price (store nan_state6 2) = NaN \<and> Type (store nan_state6 2) = Limit"
  by (simp add: run_defs nan_state6_def nan_state5_def nan_state4_def submit_all_def nan_orders_def
        StatusOpen_def)

section \<open>Top of book\<close>

text \<open>
  In the states reached without a NaN-priced LIMIT submit no book is crossed: if the
  best-bid and the best-ask query of a book both report a price, the best bid is strictly
  below the best ask.
\<close>

lemma no_crossed_book_numeric:
  assumes "reachable_numeric w" and "Book w symb = Some ob"
    and "BestBid (store w) ob = (pb, True)" and "BestAsk (store w) ob = (pa, True)"
  shows "f_lt pb pa"
proof -
  have "book_ok (store w) ob"
    using reachable_books_ok [OF assms(1)] assms(2) by (simp add: books_ok_def Book_def)
  then have cross: "\<forall>b \<in> set (bids ob). \<forall>a \<in> set (asks ob). f_lt (Price (store w b)) (Price (store w a))"
    by (simp add: book_ok_def)
  from assms(3) have b: "bids ob ! 0 \<in> set (bids ob)" "pb = Price (store w (bids ob ! 0))"
    by (simp_all add: BestBid_present)
  from assms(4) have a: "asks ob ! 0 \<in> set (asks ob)" "pa = Price (store w (asks ob ! 0))"
    by (simp_all add: BestAsk_present)
  show ?thesis
    using cross a b by blast
qed

text \<open>
  C4. The book can be crossed at rest. \<open>validateOrder\<close> tests the price of a LIMIT order
  with \<open>Price <= 0\<close> and \<open>Price > 1000000\<close>; both are false on NaN, so a LIMIT order with
  a NaN price is accepted and rests. In \<open>BidHeap.Less\<close> it is neither before nor after any
  other bid, and the heap loses its order: after the bids at 70, NaN, 60 and 80 the bid at
  80 lies below the bid at 70. The ask at 75 then stops at the top bid 70 and rests, and
  the ask at 70 trades with the top bid and removes it. After this completed submit both
  queries report a price, and the best bid 80 is not below the best ask 75.
\<close>

theorem nan_price_crosses_book:
  "reachable nan_state6 \<and>
   Type (nan_orders 2) = Limit \<and> Price (nan_orders 2) = NaN \<and>
   fst (gw_Submit (submit_all (NewGateway nan_orders 0 [''AAPL''] (Some NewTradeLog)) [1]) (Some 2)) = Inr [] \<and>
   fst (gw_Submit nan_state5 (Some 6)) =
     Inr [\<lparr>Trade_ID = 1, Trade_Symbol = ''AAPL'', BuyOrderID = 1, SellOrderID = 6,
           Trade_Price = Finite 70, Trade_Quantity = 100, Trade_Timestamp = 6000\<rparr>] \<and>
   Book nan_state6 ''AAPL'' = Some \<lparr>symbol = ''AAPL'', bids = [4, 2, 3], asks = [5]\<rparr> \<and>
   BestBid (store nan_state6) \<lparr>symbol = ''AAPL'', bids = [4, 2, 3], asks = [5]\<rparr> = (Finite 80, True) \<and>
   BestAsk (store nan_state6) \<lparr>symbol = ''AAPL'', bids = [4, 2, 3], asks = [5]\<rparr> = (Finite 75, True) \<and>
   \<not> f_lt (Finite 80) (Finite 75)"
proof -
  have "reachable (NewGateway nan_orders 0 [''AAPL''] (Some NewTradeLog))"
    by (rule reachable_init) simp
  then have "reachable nan_state4"
    unfolding nan_state4_def by (rule reachable_submit_all)
  then have "reachable nan_state5"
    unfolding nan_state5_def by (rule reachable_Submit) (rule prod.collapse [symmetric])
  then have r: "reachable nan_state6"
    unfolding nan_state6_def by (rule reachable_Submit) (rule prod.collapse [symmetric])
  have o: "Type (nan_orders 2) = Limit \<and> Price (nan_orders 2) = NaN"
    by (simp add: nan_orders_def NewLimitOrder_def)
  have bb: "BestBid (store nan_state6) \<lparr>symbol = ''AAPL'', bids = [4, 2, 3], asks = [5]\<rparr> = (Finite 80, True)"
    using nan_state6_orders by (simp add: BestBid_def)
  have ba: "BestAsk (store nan_state6) \<lparr>symbol = ''AAPL'', bids = [4, 2, 3], asks = [5]\<rparr> = (Finite 75, True)"
    using nan_state6_orders by (simp add: BestAsk_def)
  show ?thesis
    using r o nan_state6_results nan_state6_book bb ba by simp
qed

text \<open>
  C5 (as amended). The best-price queries look at the top entry of the heap only: when a
  side is non-empty and its top entry is active, the query returns that entry's price with
  present = true, and otherwise \<open>(0, false)\<close>. In the states reached without a NaN-priced
  LIMIT submit no order of the side has a better price than the top entry.
\<close>

theorem best_price_top_only:
  "BestBid (store w) ob =
     (if bids ob \<noteq> [] \<and> IsActive (store w (bids ob ! 0))
      then (Price (store w (bids ob ! 0)), True) else (Finite 0, False)) \<and>
   BestAsk (store w) ob =
     (if asks ob \<noteq> [] \<and> IsActive (store w (asks ob ! 0))
      then (Price (store w (asks ob ! 0)), True) else (Finite 0, False)) \<and>
   (reachable_numeric w \<and> Book w symb = Some ob \<longrightarrow>
      (\<forall>q \<in> set (bids ob). \<not> f_gt (Price (store w q)) (Price (store w (bids ob ! 0)))) \<and>
      (\<forall>q \<in> set (asks ob). \<not> f_lt (Price (store w q)) (Price (store w (asks ob ! 0)))))"
proof -
  have "(\<forall>q \<in> set (bids ob). \<not> f_gt (Price (store w q)) (Price (store w (bids ob ! 0)))) \<and>
      (\<forall>q \<in> set (asks ob). \<not> f_lt (Price (store w q)) (Price (store w (asks ob ! 0))))"
    if "reachable_numeric w" and "Book w symb = Some ob"
  proof -
    have ok: "book_ok (store w) ob"
      using reachable_books_ok [OF that(1)] that(2) by (simp add: books_ok_def Book_def)
    then have "\<forall>q \<in> set (bids ob). \<not> f_gt (Price (store w q)) (Price (store w (bids ob ! 0)))"
      using bid_top_dearest [of "store w" "bids ob"] by (simp add: book_ok_def f_gt_def)
    moreover from ok have "\<forall>q \<in> set (asks ob). \<not> f_lt (Price (store w q)) (Price (store w (asks ob ! 0)))"
      using ask_top_cheapest [of "store w" "asks ob"] by (simp add: book_ok_def)
    ultimately show ?thesis by simp
  qed
  then show ?thesis
    by (simp add: BestBid_def BestAsk_def Let_def)
qed

theorem best_price_top_only_witness:
  "reachable_numeric (after_two two_bids_state) \<and>
   Book (after_two two_bids_state) ''AAPL'' = Some \<lparr>symbol = ''AAPL'', bids = [1, 2], asks = []\<rparr> \<and>
   IsActive (store (after_two two_bids_state) 1) \<and>
   BestBid (store (after_two two_bids_state)) \<lparr>symbol = ''AAPL'', bids = [1, 2], asks = []\<rparr> =
     (Finite 100, True) \<and>
   \<not> f_gt (Price (store (after_two two_bids_state) 2)) (Price (store (after_two two_bids_state) 1)) \<and>
   BestAsk (store (after_two two_bids_state)) \<lparr>symbol = ''AAPL'', bids = [1, 2], asks = []\<rparr> =
     (Finite 0, False)"
proof -
  let ?ob = "\<lparr>symbol = ''AAPL'', bids = [1, 2], asks = []\<rparr>"
  have r: "reachable_numeric (after_two two_bids_state)"
    unfolding two_bids_state_def
    by (rule reachable_after_two) (simp_all add: run_defs two_bids_def)
  have b: "Book (after_two two_bids_state) ''AAPL'' = Some ?ob"
    by (simp add: run_defs after_two_def two_bids_state_def two_bids_def)
  have act: "IsActive (store (after_two two_bids_state) 1)"
    by (simp add: run_defs after_two_def two_bids_state_def two_bids_def StatusOpen_def)
  have p: "Price (store (after_two two_bids_state) 1) = Finite 100"
    by (simp add: run_defs after_two_def two_bids_state_def two_bids_def)
  from best_price_top_only [of "after_two two_bids_state" ?ob "''AAPL''"] act p r b show ?thesis
    by simp
qed

text \<open>
  C5 as stated fails: after two bids at 100 and 99 and the cancel of the first, the bid at
  99 is active and rests in the heap, below the cancelled top, and the best-bid query
  reports no price.
\<close>

theorem best_price_hidden_active:
  "Book (snd (gw_Cancel (after_two two_bids_state) ''AAPL'' 1)) ''AAPL'' =
     Some \<lparr>symbol = ''AAPL'', bids = [1, 2], asks = []\<rparr> \<and>
   IsActive (store (snd (gw_Cancel (after_two two_bids_state) ''AAPL'' 1)) 2) \<and>
   BestBid (store (snd (gw_Cancel (after_two two_bids_state) ''AAPL'' 1)))
     \<lparr>symbol = ''AAPL'', bids = [1, 2], asks = []\<rparr> = (Finite 0, False)"
  by (simp add: run_defs after_two_def two_bids_state_def two_bids_def cancel_scan.simps
        StatusOpen_def StatusPartial_def StatusCancelled_def)

text \<open>
  After a NaN-priced LIMIT order the top entry need not be the best: after the bids at 70,
  NaN, 60 and 80 the best-bid query reports 70, and the active bid at 80 rests below.
\<close>

lemma nan_price_hides_best_bid:
  "Book nan_state4 ''AAPL'' = Some \<lparr>symbol = ''AAPL'', bids = [1, 2, 3, 4], asks = []\<rparr> \<and>
   BestBid (store nan_state4) \<lparr>symbol = ''AAPL'', bids = [1, 2, 3, 4], asks = []\<rparr> = (Finite 70, True) \<and>
   IsActive (store nan_state4 4) \<and> Price (store nan_state4 4) = Finite 80 \<and>
   f_gt (Price (store nan_state4 4)) (Finite 70)"
  by (simp add: run_defs nan_state4_def submit_all_def nan_orders_def StatusOpen_def)

section \<open>Trades of a submit\<close>

lemma matchBuy_trades:
  assumes "matchBuy s seq ob a = (trds, s', seq', ob')" and "t \<in> set trds"
  shows "\<exists>p \<in> set (asks ob). Trade_Price t = Price (s p) \<and> SellOrderID t = ID (s p) \<and>
           BuyOrderID t = ID (s a)"
proof -
  let ?st = "matchBuy_loop (symbol ob) a (s, seq, asks ob, [])"
  have "trds = trades_of ?st"
    using assms(1) by (auto simp: matchBuy_def trades_of_def split: prod.splits)
  moreover have "buy_run a (s, seq, asks ob, []) ?st"
    by (rule matchBuy_loop_run)
  ultimately show ?thesis
    using assms(2) by (auto simp: buy_run_def)
qed

lemma matchSell_trades:
  assumes "matchSell s seq ob a = (trds, s', seq', ob')" and "t \<in> set trds"
  shows "\<exists>p \<in> set (bids ob). Trade_Price t = Price (s p) \<and> BuyOrderID t = ID (s p) \<and>
           SellOrderID t = ID (s a)"
proof -
  let ?st = "matchSell_loop (symbol ob) a (s, seq, bids ob, [])"
  have "trds = trades_of ?st"
    using assms(1) by (auto simp: matchSell_def trades_of_def split: prod.splits)
  moreover have "sell_run a (s, seq, bids ob, []) ?st"
    by (rule matchSell_loop_run)
  ultimately show ?thesis
    using assms(2) by (auto simp: sell_run_def)
qed

text \<open>
  C2. Passive pricing: every trade returned by a submit to a book carries the price of an
  order resting on the opposite side when the submit began (prices are never written
  after that), namely of the order whose id the trade names as counterparty; the incoming
  order's own price is not used.
\<close>

theorem passive_pricing:
  assumes "ob_Submit s seq ob a = (trds, s', seq', ob')" and "t \<in> set trds"
  shows "(Side (s a) = Buy \<and>
          (\<exists>p \<in> set (asks ob). Trade_Price t = Price (s p) \<and> SellOrderID t = ID (s p) \<and>
             BuyOrderID t = ID (s a))) \<or>
         (Side (s a) = Sell \<and>
          (\<exists>p \<in> set (bids ob). Trade_Price t = Price (s p) \<and> BuyOrderID t = ID (s p) \<and>
             SellOrderID t = ID (s a)))"
proof (cases "Side (s a) = Buy")
  case True
  with assms show ?thesis
    using matchBuy_trades [of s seq ob a trds s' seq' ob' t]
    by (simp add: ob_Submit_def ob_match_def)
next
  case nb: False
  show ?thesis
  proof (cases "Side (s a) = Sell")
    case True
    with assms nb show ?thesis
      using matchSell_trades [of s seq ob a trds s' seq' ob' t]
      by (simp add: ob_Submit_def ob_match_def)
  next
    case False
    with assms nb show ?thesis
      by (simp add: ob_Submit_def ob_match_def)
  qed
qed

theorem passive_pricing_witness:
  "fst (ob_Submit (store crossing_state) (globalTradeSeq crossing_state)
          \<lparr>symbol = ''AAPL'', bids = [], asks = [1]\<rparr> 2) =
     [\<lparr>Trade_ID = 1, Trade_Symbol = ''AAPL'', BuyOrderID = 2, SellOrderID = 1,
       Trade_Price = Finite 189, Trade_Quantity = 100, Trade_Timestamp = 2000\<rparr>] \<and>
   Book crossing_state ''AAPL'' = Some \<lparr>symbol = ''AAPL'', bids = [], asks = [1]\<rparr> \<and>
   Price (store crossing_state 1) = Finite 189 \<and> Price (store crossing_state 2) = Finite 189.5 \<and>
   Side (store crossing_state 2) = Buy \<and>
   (\<exists>p \<in> set (asks \<lparr>symbol = ''AAPL'', bids = [], asks = [1]\<rparr>).
      Finite 189 = Price (store crossing_state p) \<and> (1 :: 64 word) = ID (store crossing_state p))"
proof -
  let ?ob = "\<lparr>symbol = ''AAPL'', bids = [], asks = [1]\<rparr>"
  let ?t = "\<lparr>Trade_ID = 1, Trade_Symbol = ''AAPL'', BuyOrderID = 2, SellOrderID = 1,
       Trade_Price = Finite 189, Trade_Quantity = 100, Trade_Timestamp = 2000\<rparr>"
  have ev: "fst (ob_Submit (store crossing_state) (globalTradeSeq crossing_state) ?ob 2) = [?t]"
    by (simp add: run_defs crossing_state_def crossing_pair_def)
  have call: "ob_Submit (store crossing_state) (globalTradeSeq crossing_state) ?ob 2 =
      ([?t], snd (ob_Submit (store crossing_state) (globalTradeSeq crossing_state) ?ob 2))"
    using ev by (metis prod.collapse)
  obtain s' seq' ob' where call':
    "ob_Submit (store crossing_state) (globalTradeSeq crossing_state) ?ob 2 = ([?t], s', seq', ob')"
    using call by (metis prod.collapse)
  have mem: "?t \<in> set [?t]" by simp
  have facts: "Book crossing_state ''AAPL'' = Some ?ob \<and>
      Price (store crossing_state 1) = Finite 189 \<and> Price (store crossing_state 2) = Finite 189.5 \<and>
      Side (store crossing_state 2) = Buy"
    by (simp add: run_defs crossing_state_def crossing_pair_def)
  from passive_pricing [OF call' mem] facts ev show ?thesis
    by simp
qed

section \<open>IOC orders\<close>

lemma matchBuy_IOC:
  assumes "Type (s a) = IOC" and "matchBuy s seq ob a = (trds, s', seq', ob')"
  shows "bids ob' = bids ob \<and> (asks ob' = [] \<or> \<not> 0 <s Remaining (s' a)) \<and>
    (Status (s' a) = StatusFilled \<or> Status (s' a) = StatusCancelled)"
proof -
  obtain s1 seq1 asks1 trds1 where loop:
    "matchBuy_loop (symbol ob) a (s, seq, asks ob, []) = (s1, seq1, asks1, trds1)"
    by (cases "matchBuy_loop (symbol ob) a (s, seq, asks ob, [])") auto
  obtain s2 bids2 where fin: "finalizeOrder BidHeap_Less s1 a (bids ob) = (s2, bids2)"
    by (cases "finalizeOrder BidHeap_Less s1 a (bids ob)") auto
  from assms(2) loop fin have res: "s' = s2" "ob' = ob\<lparr>bids := bids2, asks := asks1\<rparr>"
    by (simp_all add: matchBuy_def)
  have run: "buy_run a (s, seq, asks ob, []) (s1, seq1, asks1, trds1)"
    using matchBuy_loop_run [of a "(s, seq, asks ob, [])" "symbol ob"] loop by simp
  then have f1: "fills_only s s1" and stop: "asks1 = [] \<or> \<not> 0 <s Remaining (s1 a)"
    using assms(1) by (simp_all add: buy_run_def)
  have "Type (s1 a) = IOC"
    using assms(1) by (simp add: fills_only_fields [OF f1])
  from finalizeOrder_IOC [OF fin this] stop show ?thesis
    by (simp add: res)
qed

lemma matchSell_IOC:
  assumes "Type (s a) = IOC" and "matchSell s seq ob a = (trds, s', seq', ob')"
  shows "asks ob' = asks ob \<and> (bids ob' = [] \<or> \<not> 0 <s Remaining (s' a)) \<and>
    (Status (s' a) = StatusFilled \<or> Status (s' a) = StatusCancelled)"
proof -
  obtain s1 seq1 bids1 trds1 where loop:
    "matchSell_loop (symbol ob) a (s, seq, bids ob, []) = (s1, seq1, bids1, trds1)"
    by (cases "matchSell_loop (symbol ob) a (s, seq, bids ob, [])") auto
  obtain s2 asks2 where fin: "finalizeOrder AskHeap_Less s1 a (asks ob) = (s2, asks2)"
    by (cases "finalizeOrder AskHeap_Less s1 a (asks ob)") auto
  from assms(2) loop fin have res: "s' = s2" "ob' = ob\<lparr>bids := bids1, asks := asks2\<rparr>"
    by (simp_all add: matchSell_def)
  have run: "sell_run a (s, seq, bids ob, []) (s1, seq1, bids1, trds1)"
    using matchSell_loop_run [of a "(s, seq, bids ob, [])" "symbol ob"] loop by simp
  then have f1: "fills_only s s1" and stop: "bids1 = [] \<or> \<not> 0 <s Remaining (s1 a)"
    using assms(1) by (simp_all add: sell_run_def)
  have "Type (s1 a) = IOC"
    using assms(1) by (simp add: fills_only_fields [OF f1])
  from finalizeOrder_IOC [OF fin this] stop show ?thesis
    by (simp add: res)
qed

text \<open>
  C3 (as amended). An IOC order passes no price gate: its matching loop ends only when
  the opposite side is empty or the order has nothing left to fill, whatever its price;
  it is never inserted on its own side, and it ends FILLED or CANCELLED.
\<close>

theorem ioc_no_price_gate:
  assumes "Type (s a) = IOC" and "ob_Submit s seq ob a = (trds, s', seq', ob')"
  shows "(Side (s a) = Buy \<longrightarrow>
            bids ob' = bids ob \<and> (asks ob' = [] \<or> \<not> 0 <s Remaining (s' a)) \<and>
            (Status (s' a) = StatusFilled \<or> Status (s' a) = StatusCancelled)) \<and>
         (Side (s a) = Sell \<longrightarrow>
            asks ob' = asks ob \<and> (bids ob' = [] \<or> \<not> 0 <s Remaining (s' a)) \<and>
            (Status (s' a) = StatusFilled \<or> Status (s' a) = StatusCancelled))"
proof (rule conjI; rule impI)
  assume "Side (s a) = Buy"
  with assms(2) have "matchBuy s seq ob a = (trds, s', seq', ob')"
    by (simp add: ob_Submit_def ob_match_def)
  from matchBuy_IOC [OF assms(1) this]
  show "bids ob' = bids ob \<and> (asks ob' = [] \<or> \<not> 0 <s Remaining (s' a)) \<and>
            (Status (s' a) = StatusFilled \<or> Status (s' a) = StatusCancelled)" .
next
  assume "Side (s a) = Sell"
  with assms(2) have "matchSell s seq ob a = (trds, s', seq', ob')"
    by (simp add: ob_Submit_def ob_match_def)
  from matchSell_IOC [OF assms(1) this]
  show "asks ob' = asks ob \<and> (bids ob' = [] \<or> \<not> 0 <s Remaining (s' a)) \<and>
            (Status (s' a) = StatusFilled \<or> Status (s' a) = StatusCancelled)" .
qed

theorem ioc_no_price_gate_witness:
  "Type (store ioc_state 2) = IOC \<and> Side (store ioc_state 2) = Buy \<and>
   bids (snd (snd (snd (ob_Submit (store ioc_state) (globalTradeSeq ioc_state)
      \<lparr>symbol = ''AAPL'', bids = [], asks = [1]\<rparr> 2)))) = [] \<and>
   asks (snd (snd (snd (ob_Submit (store ioc_state) (globalTradeSeq ioc_state)
      \<lparr>symbol = ''AAPL'', bids = [], asks = [1]\<rparr> 2)))) = [] \<and>
   Status (fst (snd (ob_Submit (store ioc_state) (globalTradeSeq ioc_state)
      \<lparr>symbol = ''AAPL'', bids = [], asks = [1]\<rparr> 2)) 2) = StatusCancelled"
proof -
  let ?ob = "\<lparr>symbol = ''AAPL'', bids = [], asks = [1]\<rparr>"
  let ?r = "ob_Submit (store ioc_state) (globalTradeSeq ioc_state) ?ob 2"
  have ty: "Type (store ioc_state 2) = IOC" and side: "Side (store ioc_state 2) = Buy"
    by (simp_all add: run_defs ioc_state_def ioc_below_ask_def)
  have call: "?r = (fst ?r, fst (snd ?r), fst (snd (snd ?r)), snd (snd (snd ?r)))"
    by simp
  have ev: "asks (snd (snd (snd ?r))) = [] \<and> Status (fst (snd ?r) 2) = StatusCancelled"
    by (simp add: run_defs ioc_state_def ioc_below_ask_def)
  from ioc_no_price_gate [OF ty call] ty side ev show ?thesis
    by simp
qed

text \<open>
  C3 as stated fails: an IOC buy with limit 100 trades against the resting ask at 190.
\<close>

theorem ioc_trades_above_limit:
  "Book ioc_state ''AAPL'' = Some \<lparr>symbol = ''AAPL'', bids = [], asks = [1]\<rparr> \<and>
   IsActive (store ioc_state 1) \<and> Price (store ioc_state 1) = Finite 190 \<and>
   Type (store ioc_state 2) = IOC \<and> Side (store ioc_state 2) = Buy \<and>
   Price (store ioc_state 2) = Finite 100 \<and>
   fst (gw_Submit ioc_state (Some 2)) =
     Inr [\<lparr>Trade_ID = 1, Trade_Symbol = ''AAPL'', BuyOrderID = 2, SellOrderID = 1,
           Trade_Price = Finite 190, Trade_Quantity = 50, Trade_Timestamp = 2000\<rparr>]"
  by (simp add: run_defs ioc_state_def ioc_below_ask_def StatusOpen_def)

section \<open>Submitting an order again\<close>

lemma filled_no_remaining:
  fixes q f :: "64 word"
  assumes "q \<le>s f" and "0 <s q"
  shows "\<not> 0 <s q - f"
proof -
  have le: "sint q \<le> sint f" and pos: "0 < sint q"
    using assms by (simp_all add: word_sle_eq word_sless_alt)
  have "- (2 ^ 63) \<le> sint f" "sint f < 2 ^ 63" "sint q < 2 ^ 63"
    using sint_ge [of f] sint_lt [of f] sint_lt [of q] by simp_all
  then have "- (2 ^ 63) \<le> sint q - sint f" "sint q - sint f < 2 ^ 63"
    using le pos by linarith+
  then have "sint (q - f) = sint q - sint f"
    by (simp add: sint_word_diff signed_take_bit_int_eq_self)
  then show ?thesis
    using le by (simp add: word_sless_alt)
qed

lemma validateOrder_None:
  assumes "validateOrder s (Some a) = None"
  shows "(Side (s a) = Buy \<or> Side (s a) = Sell) \<and> 0 <s Quantity (s a)"
  using assms
  by (auto simp: validateOrder_def word_sle_eq word_sless_alt split: if_splits)

lemma ob_Submit_filled:
  assumes fl: "IsFilled (s a)" and qty: "0 <s Quantity (s a)"
    and side: "Side (s a) = Buy \<or> Side (s a) = Sell"
  shows "ob_Submit s seq ob a = ([], s(a := (s a)\<lparr>Status := StatusFilled\<rparr>), seq, ob)"
proof -
  have nr: "\<not> 0 <s Remaining (s a)"
    using fl qty by (simp add: IsFilled_def Remaining_def filled_no_remaining)
  have b: "matchBuy_loop (symbol ob) a (s, seq, asks ob, []) = (s, seq, asks ob, [])"
    using nr by (subst matchBuy_loop.simps) (simp add: matchBuy_guard_def)
  have c: "matchSell_loop (symbol ob) a (s, seq, bids ob, []) = (s, seq, bids ob, [])"
    using nr by (subst matchSell_loop.simps) (simp add: matchSell_guard_def)
  have fin: "finalizeOrder Less s a book = (s(a := (s a)\<lparr>Status := StatusFilled\<rparr>), book)" for Less book
    using fl by (simp add: finalizeOrder_def)
  show ?thesis
    using side by (auto simp: ob_Submit_def ob_match_def matchBuy_def matchSell_def b c fin)
qed

lemma gw_Submit_filled:
  assumes fl: "IsFilled (store w a)" and v: "validateOrder (store w) (Some a) = None"
    and bk: "books w (Symbol (store w a)) \<noteq> None"
  shows "gw_Submit w (Some a) =
    (Inr [], w\<lparr>store := (store w)(a := (store w a)\<lparr>Status := StatusFilled\<rparr>)\<rparr>)"
proof -
  from bk obtain ob where ob: "books w (Symbol (store w a)) = Some ob" by blast
  from validateOrder_None [OF v] have side: "Side (store w a) = Buy \<or> Side (store w a) = Sell"
    and qty: "0 <s Quantity (store w a)" by simp_all
  have sub: "ob_Submit (store w) (globalTradeSeq w) ob a =
      ([], (store w)(a := (store w a)\<lparr>Status := StatusFilled\<rparr>), globalTradeSeq w, ob)"
    using fl qty side by (rule ob_Submit_filled)
  have bks: "(books w)(Symbol (store w a) \<mapsto> ob) = books w"
    using ob by (simp add: fun_upd_idem)
  have lg: "(case tradelog w of None \<Rightarrow> None | Some lg \<Rightarrow> Some (AddAll lg [])) = tradelog w"
    by (cases "tradelog w") (simp_all add: AddAll_def)
  show ?thesis
    by (simp add: gw_Submit_def v ob sub bks lg)
qed

lemma validateOrder_reject:
  "validateOrder ((store w)(a := (store w a)\<lparr>Status := v\<rparr>)) (Some a) = validateOrder (store w) (Some a)"
  by (simp add: validateOrder_def)

lemma gw_Submit_rejected_again:
  assumes "fst (gw_Submit w (Some a)) = Inl e"
  shows "gw_Submit w (Some a) = (Inl e, reject w a) \<and>
    gw_Submit (reject w a) (Some a) = (Inl e, reject w a)"
proof (cases "validateOrder (store w) (Some a)")
  case (Some err)
  then have first: "gw_Submit w (Some a) = (Inl (OrderRejected (ID (store w a)) err), reject w a)"
    by (simp add: gw_Submit_def)
  have "validateOrder (store (reject w a)) (Some a) = Some err"
    using Some by (simp add: reject_def validateOrder_reject)
  then have "gw_Submit (reject w a) (Some a) =
      (Inl (OrderRejected (ID (store w a)) err), reject w a)"
    by (simp add: gw_Submit_def) (simp add: reject_def)
  with first assms show ?thesis by simp
next
  case None
  show ?thesis
  proof (cases "books w (Symbol (store w a))")
    case nobook: None
    then have first: "gw_Submit w (Some a) =
        (Inl (SymbolNotSupported (ID (store w a)) (Symbol (store w a))), reject w a)"
      using None by (simp add: gw_Submit_def)
    have "validateOrder (store (reject w a)) (Some a) = None"
      using None by (simp add: reject_def validateOrder_reject)
    moreover have "books (reject w a) (Symbol (store (reject w a) a)) = None"
      using nobook by (simp add: reject_def)
    ultimately have "gw_Submit (reject w a) (Some a) =
        (Inl (SymbolNotSupported (ID (store w a)) (Symbol (store w a))), reject w a)"
      by (simp add: gw_Submit_def) (simp add: reject_def)
    with first assms show ?thesis by simp
  next
    case (Some ob)
    with None assms show ?thesis
      by (simp add: gw_Submit_def split: prod.splits)
  qed
qed

text \<open>
  C7 (as amended). The gateway does not look at the status of a submitted order. An order
  whose filled quantity has reached its quantity, with valid fields and a registered
  symbol, is accepted: no error, no trades, no change but its status set to FILLED.
  An order that the gateway rejects leaves books and log untouched, is marked REJECTED,
  and is rejected again in the same way when it is submitted again.
\<close>

theorem resubmit_terminal:
  "(IsFilled (store w a) \<and> validateOrder (store w) (Some a) = None \<and>
      books w (Symbol (store w a)) \<noteq> None \<longrightarrow>
        gw_Submit w (Some a) =
          (Inr [], w\<lparr>store := (store w)(a := (store w a)\<lparr>Status := StatusFilled\<rparr>)\<rparr>)) \<and>
   (fst (gw_Submit w (Some a)) = Inl e \<longrightarrow>
        books (snd (gw_Submit w (Some a))) = books w \<and>
        tradelog (snd (gw_Submit w (Some a))) = tradelog w \<and>
        Status (store (snd (gw_Submit w (Some a))) a) = StatusRejected \<and>
        gw_Submit (snd (gw_Submit w (Some a))) (Some a) = (Inl e, snd (gw_Submit w (Some a))))"
proof (rule conjI; rule impI)
  assume "IsFilled (store w a) \<and> validateOrder (store w) (Some a) = None \<and>
      books w (Symbol (store w a)) \<noteq> None"
  then show "gw_Submit w (Some a) =
          (Inr [], w\<lparr>store := (store w)(a := (store w a)\<lparr>Status := StatusFilled\<rparr>)\<rparr>)"
    by (simp add: gw_Submit_filled)
next
  assume "fst (gw_Submit w (Some a)) = Inl e"
  from gw_Submit_rejected_again [OF this]
  show "books (snd (gw_Submit w (Some a))) = books w \<and>
        tradelog (snd (gw_Submit w (Some a))) = tradelog w \<and>
        Status (store (snd (gw_Submit w (Some a))) a) = StatusRejected \<and>
        gw_Submit (snd (gw_Submit w (Some a))) (Some a) = (Inl e, snd (gw_Submit w (Some a)))"
    by (simp add: reject_def)
qed

theorem resubmit_terminal_witness:
  "IsFilled (filled_order 1) \<and> Status (filled_order 1) = StatusFilled \<and>
   fst (gw_Submit (NewGateway filled_order 0 [''AAPL'', ''MSFT''] (Some NewTradeLog)) (Some 1)) = Inr [] \<and>
   books (snd (gw_Submit (NewGateway filled_order 0 [''AAPL'', ''MSFT''] (Some NewTradeLog)) (Some 1))) =
     books (NewGateway filled_order 0 [''AAPL'', ''MSFT''] (Some NewTradeLog)) \<and>
   fst (gw_Submit (NewGateway goog_zero_qty 0 [''AAPL'', ''MSFT''] (Some NewTradeLog)) (Some 0)) =
     Inl (OrderRejected 1 \<lparr>Field = ''quantity'', Message = QuantiteInvalide 0\<rparr>) \<and>
   fst (gw_Submit (snd (gw_Submit (NewGateway goog_zero_qty 0 [''AAPL'', ''MSFT''] (Some NewTradeLog))
          (Some 0))) (Some 0)) =
     Inl (OrderRejected 1 \<lparr>Field = ''quantity'', Message = QuantiteInvalide 0\<rparr>)"
proof -
  let ?w = "NewGateway filled_order 0 [''AAPL'', ''MSFT''] (Some NewTradeLog)"
  let ?g = "NewGateway goog_zero_qty 0 [''AAPL'', ''MSFT''] (Some NewTradeLog)"
  let ?e = "OrderRejected 1 \<lparr>Field = ''quantity'', Message = QuantiteInvalide 0\<rparr>"
  have h1: "IsFilled (store ?w 1) \<and> validateOrder (store ?w) (Some 1) = None \<and>
      books ?w (Symbol (store ?w 1)) \<noteq> None"
    by (simp add: run_defs filled_order_def Buy_def Sell_def Limit_def)
  have h2: "fst (gw_Submit ?g (Some 0)) = Inl ?e"
    by (simp add: run_defs goog_zero_qty_def Buy_def Sell_def Limit_def Market_def IOC_def)
  have f: "IsFilled (filled_order 1) \<and> Status (filled_order 1) = StatusFilled"
    by (simp add: run_defs filled_order_def)
  from resubmit_terminal [of ?w 1 ?e] resubmit_terminal [of ?g 0 ?e] h1 h2 f show ?thesis
    by simp
qed

text \<open>
  C7 as stated fails: a bid that was cancelled while resting, submitted again, is matched
  against the resting ask and produces a trade.
\<close>

theorem cancelled_order_trades_again:
  "Status (store cancelled_state 1) = StatusCancelled \<and>
   Book cancelled_state ''AAPL'' = Some \<lparr>symbol = ''AAPL'', bids = [], asks = [2]\<rparr> \<and>
   fst (gw_Submit cancelled_state (Some 1)) =
     Inr [\<lparr>Trade_ID = 1, Trade_Symbol = ''AAPL'', BuyOrderID = 1, SellOrderID = 2,
           Trade_Price = Finite 190, Trade_Quantity = 100, Trade_Timestamp = 1000\<rparr>] \<and>
   Book (snd (gw_Submit cancelled_state (Some 1))) ''AAPL'' =
     Some \<lparr>symbol = ''AAPL'', bids = [], asks = []\<rparr>"
  by (simp add: run_defs cancelled_state_def resting_then_cancelled_def cancel_scan.simps
        StatusOpen_def StatusPartial_def StatusCancelled_def StatusFilled_def)

section \<open>Price-time priority\<close>

lemma matchBuy_at_heap:
  assumes "matchBuy_at symb a st0 st" and "ask_heap (store_of st0) (heap_of st0)"
  shows "ask_heap (store_of st) (heap_of st)"
  using assms
proof (induction rule: matchBuy_at.induct)
  case buy_at_start
  then show ?case by simp
next
  case (buy_at_next st st')
  from matchBuy_body_cases [of symb a st] buy_at_next.hyps(3) have "buy_round a st st'"
    by auto
  then show ?case
    using buy_at_next by (simp add: buy_round_def)
qed

lemma matchSell_at_heap:
  assumes "matchSell_at symb a st0 st" and "bid_heap (store_of st0) (heap_of st0)"
  shows "bid_heap (store_of st) (heap_of st)"
  using assms
proof (induction rule: matchSell_at.induct)
  case sell_at_start
  then show ?case by simp
next
  case (sell_at_next st st')
  from matchSell_body_cases [of symb a st] sell_at_next.hyps(3) have "sell_round a st st'"
    by auto
  then show ?case
    using sell_at_next by (simp add: sell_round_def)
qed

lemma matchBuy_selects_trades:
  assumes "matchBuy_selects a st p"
  shows "\<exists>st' t. matchBuy_body symb a st = Continue st' \<and> trades_of st' = trades_of st @ [t] \<and>
    SellOrderID t = ID (store_of st p) \<and> Trade_Price t = Price (store_of st p)"
proof -
  obtain s seq h trds where st: "st = (s, seq, h, trds)"
    by (cases st) auto
  from assms have act: "IsActive (s (h ! 0))"
    and gate: "\<not> (Type (s a) = Limit \<and> f_lt (Price (s a)) (Price (s (h ! 0))))" and p: "p = h ! 0"
    by (auto simp: matchBuy_selects_def st)
  show ?thesis
    using matchBuy_body_trade [OF act gate, of symb seq trds]
    by (simp add: st p Let_def)
qed

lemma matchSell_selects_trades:
  assumes "matchSell_selects a st p"
  shows "\<exists>st' t. matchSell_body symb a st = Continue st' \<and> trades_of st' = trades_of st @ [t] \<and>
    BuyOrderID t = ID (store_of st p) \<and> Trade_Price t = Price (store_of st p)"
proof -
  obtain s seq h trds where st: "st = (s, seq, h, trds)"
    by (cases st) auto
  from assms have act: "IsActive (s (h ! 0))"
    and gate: "\<not> (Type (s a) = Limit \<and> f_gt (Price (s a)) (Price (s (h ! 0))))" and p: "p = h ! 0"
    by (auto simp: matchSell_selects_def st)
  show ?thesis
    using matchSell_body_trade [OF act gate, of symb seq trds]
    by (simp add: st p Let_def)
qed

lemma not_sless_cases: "\<not> (x :: 64 word) <s y \<Longrightarrow> y <s x \<or> y = x"
  by (auto simp: word_sless_alt not_less order_le_less dest: signed_word_eqI)

lemma ask_top_first:
  assumes "ask_heap s h" and "q \<in> set h"
  shows "f_lt (Price (s (h ! 0))) (Price (s q)) \<or>
    (Price (s (h ! 0)) = Price (s q) \<and>
     (Timestamp (s (h ! 0)) <s Timestamp (s q) \<or> Timestamp (s (h ! 0)) = Timestamp (s q)))"
proof -
  have "h ! 0 \<in> set h" using assms(2) by (cases h) auto
  then have n: "Price (s q) \<noteq> NaN" "Price (s (h ! 0)) \<noteq> NaN"
    using assms by (simp_all add: ask_heap_def numeric_def)
  show ?thesis
    using ask_top_least [OF assms] n f_lt_linear [OF n]
      not_sless_cases [of "Timestamp (s q)" "Timestamp (s (h ! 0))"]
    by (auto simp: ask_before_def f_ne_numeric split: if_splits)
qed

lemma bid_top_first:
  assumes "bid_heap s h" and "q \<in> set h"
  shows "f_gt (Price (s (h ! 0))) (Price (s q)) \<or>
    (Price (s (h ! 0)) = Price (s q) \<and>
     (Timestamp (s (h ! 0)) <s Timestamp (s q) \<or> Timestamp (s (h ! 0)) = Timestamp (s q)))"
proof -
  have "h ! 0 \<in> set h" using assms(2) by (cases h) auto
  then have n: "Price (s q) \<noteq> NaN" "Price (s (h ! 0)) \<noteq> NaN"
    using assms by (simp_all add: bid_heap_def numeric_def)
  show ?thesis
    using bid_top_least [OF assms] n f_lt_linear [OF n]
      not_sless_cases [of "Timestamp (s q)" "Timestamp (s (h ! 0))"]
    by (auto simp: bid_before_def f_ne_numeric f_gt_def split: if_splits)
qed

text \<open>
  C1 (as amended). In every state reached without a NaN-priced LIMIT submit and for every
  incoming order, whenever a round of the matching loop selects the resting order it
  trades against, no order on that side has a better price, and none at the same price
  has an earlier timestamp: against every resting order of the side the selected one has
  a strictly better price, or the same price and a timestamp that is strictly earlier or
  equal. So of two resting orders at the same price with distinct timestamps the earlier
  one is matched first.
\<close>

theorem price_time_priority:
  assumes "reachable_numeric w" and "Book w symb = Some ob"
  shows "(matchBuy_at (symbol ob) a (store w, globalTradeSeq w, asks ob, []) st \<and>
          matchBuy_selects a st p \<longrightarrow>
            (\<exists>st' t. matchBuy_body (symbol ob) a st = Continue st' \<and>
               trades_of st' = trades_of st @ [t] \<and> SellOrderID t = ID (store_of st p) \<and>
               Trade_Price t = Price (store_of st p)) \<and>
            (\<forall>q \<in> set (heap_of st).
               f_lt (Price (store_of st p)) (Price (store_of st q)) \<or>
               (Price (store_of st p) = Price (store_of st q) \<and>
                (Timestamp (store_of st p) <s Timestamp (store_of st q) \<or>
                 Timestamp (store_of st p) = Timestamp (store_of st q))))) \<and>
         (matchSell_at (symbol ob) a (store w, globalTradeSeq w, bids ob, []) st \<and>
          matchSell_selects a st p \<longrightarrow>
            (\<exists>st' t. matchSell_body (symbol ob) a st = Continue st' \<and>
               trades_of st' = trades_of st @ [t] \<and> BuyOrderID t = ID (store_of st p) \<and>
               Trade_Price t = Price (store_of st p)) \<and>
            (\<forall>q \<in> set (heap_of st).
               f_gt (Price (store_of st p)) (Price (store_of st q)) \<or>
               (Price (store_of st p) = Price (store_of st q) \<and>
                (Timestamp (store_of st p) <s Timestamp (store_of st q) \<or>
                 Timestamp (store_of st p) = Timestamp (store_of st q)))))"
proof -
  have ok: "book_ok (store w) ob"
    using reachable_books_ok [OF assms(1)] assms(2) by (simp add: books_ok_def Book_def)
  show ?thesis
  proof (rule conjI; rule impI)
    assume h: "matchBuy_at (symbol ob) a (store w, globalTradeSeq w, asks ob, []) st \<and>
          matchBuy_selects a st p"
    then have p: "p = heap_of st ! 0" by (simp add: matchBuy_selects_def)
    have "ask_heap (store_of st) (heap_of st)"
      using h ok matchBuy_at_heap [of "symbol ob" a "(store w, globalTradeSeq w, asks ob, [])" st]
      by (simp add: book_ok_def)
    then have "\<forall>q \<in> set (heap_of st).
               f_lt (Price (store_of st p)) (Price (store_of st q)) \<or>
               (Price (store_of st p) = Price (store_of st q) \<and>
                (Timestamp (store_of st p) <s Timestamp (store_of st q) \<or>
                 Timestamp (store_of st p) = Timestamp (store_of st q)))"
      unfolding p using ask_top_first by blast
    moreover have "\<exists>st' t. matchBuy_body (symbol ob) a st = Continue st' \<and>
               trades_of st' = trades_of st @ [t] \<and> SellOrderID t = ID (store_of st p) \<and>
               Trade_Price t = Price (store_of st p)"
      using h matchBuy_selects_trades by blast
    ultimately show "(\<exists>st' t. matchBuy_body (symbol ob) a st = Continue st' \<and>
               trades_of st' = trades_of st @ [t] \<and> SellOrderID t = ID (store_of st p) \<and>
               Trade_Price t = Price (store_of st p)) \<and>
            (\<forall>q \<in> set (heap_of st).
               f_lt (Price (store_of st p)) (Price (store_of st q)) \<or>
               (Price (store_of st p) = Price (store_of st q) \<and>
                (Timestamp (store_of st p) <s Timestamp (store_of st q) \<or>
                 Timestamp (store_of st p) = Timestamp (store_of st q))))"
      by blast
  next
    assume h: "matchSell_at (symbol ob) a (store w, globalTradeSeq w, bids ob, []) st \<and>
          matchSell_selects a st p"
    then have p: "p = heap_of st ! 0" by (simp add: matchSell_selects_def)
    have "bid_heap (store_of st) (heap_of st)"
      using h ok matchSell_at_heap [of "symbol ob" a "(store w, globalTradeSeq w, bids ob, [])" st]
      by (simp add: book_ok_def)
    then have "\<forall>q \<in> set (heap_of st).
               f_gt (Price (store_of st p)) (Price (store_of st q)) \<or>
               (Price (store_of st p) = Price (store_of st q) \<and>
                (Timestamp (store_of st p) <s Timestamp (store_of st q) \<or>
                 Timestamp (store_of st p) = Timestamp (store_of st q)))"
      unfolding p using bid_top_first by blast
    moreover have "\<exists>st' t. matchSell_body (symbol ob) a st = Continue st' \<and>
               trades_of st' = trades_of st @ [t] \<and> BuyOrderID t = ID (store_of st p) \<and>
               Trade_Price t = Price (store_of st p)"
      using h matchSell_selects_trades by blast
    ultimately show "(\<exists>st' t. matchSell_body (symbol ob) a st = Continue st' \<and>
               trades_of st' = trades_of st @ [t] \<and> BuyOrderID t = ID (store_of st p) \<and>
               Trade_Price t = Price (store_of st p)) \<and>
            (\<forall>q \<in> set (heap_of st).
               f_gt (Price (store_of st p)) (Price (store_of st q)) \<or>
               (Price (store_of st p) = Price (store_of st q) \<and>
                (Timestamp (store_of st p) <s Timestamp (store_of st q) \<or>
                 Timestamp (store_of st p) = Timestamp (store_of st q))))"
      by blast
  qed
qed

theorem price_time_priority_witness:
  "reachable_numeric fifo_state \<and>
   Book fifo_state ''AAPL'' = Some \<lparr>symbol = ''AAPL'', bids = [], asks = [1, 2]\<rparr> \<and>
   matchBuy_at ''AAPL'' 3 (store fifo_state, globalTradeSeq fifo_state, [1, 2], [])
     (store fifo_state, globalTradeSeq fifo_state, [1, 2], []) \<and>
   matchBuy_selects 3 (store fifo_state, globalTradeSeq fifo_state, [1, 2], []) 1 \<and>
   Price (store fifo_state 1) = Price (store fifo_state 2) \<and>
   Timestamp (store fifo_state 1) <s Timestamp (store fifo_state 2) \<and>
   (\<exists>st' t. matchBuy_body ''AAPL'' 3 (store fifo_state, globalTradeSeq fifo_state, [1, 2], []) =
        Continue st' \<and> trades_of st' = [t] \<and> SellOrderID t = ID (store fifo_state 1))"
proof -
  let ?ob = "\<lparr>symbol = ''AAPL'', bids = [], asks = [1, 2]\<rparr>"
  let ?st = "(store fifo_state, globalTradeSeq fifo_state, [1, 2], [])"
  have r: "reachable_numeric fifo_state"
    unfolding fifo_state_def
    by (rule reachable_after_two) (simp_all add: run_defs fifo_asks_def)
  have b: "Book fifo_state ''AAPL'' = Some ?ob"
    by (simp add: run_defs fifo_state_def after_two_def fifo_asks_def)
  have at: "matchBuy_at ''AAPL'' 3 ?st ?st"
    by (rule buy_at_start)
  have sel: "matchBuy_selects 3 ?st 1"
    by (simp add: matchBuy_selects_def run_defs fifo_state_def after_two_def fifo_asks_def
          StatusOpen_def)
  have keys: "Price (store fifo_state 1) = Price (store fifo_state 2) \<and>
      Timestamp (store fifo_state 1) <s Timestamp (store fifo_state 2)"
    by (simp add: run_defs fifo_state_def after_two_def fifo_asks_def)
  from price_time_priority [OF r b, of 3 ?st 1] at sel
  have "\<exists>st' t. matchBuy_body ''AAPL'' 3 ?st = Continue st' \<and>
      trades_of st' = trades_of ?st @ [t] \<and> SellOrderID t = ID (store_of ?st 1) \<and>
      Trade_Price t = Price (store_of ?st 1)"
    by simp
  then have "\<exists>st' t. matchBuy_body ''AAPL'' 3 ?st = Continue st' \<and> trades_of st' = [t] \<and>
      SellOrderID t = ID (store fifo_state 1)"
    by auto
  with r b at sel keys show ?thesis
    by blast
qed

text \<open>
  C1 as stated fails where two resting orders have the same price and the same timestamp:
  the selected one is then neither strictly better priced nor strictly earlier.
\<close>

theorem equal_keys_not_strict:
  "Book same_time_state ''AAPL'' = Some \<lparr>symbol = ''AAPL'', bids = [], asks = [1, 2]\<rparr> \<and>
   matchBuy_selects 3 (store same_time_state, globalTradeSeq same_time_state, [1, 2], []) 1 \<and>
   IsActive (store same_time_state 2) \<and>
   fst (gw_Submit same_time_state (Some 3)) =
     Inr [\<lparr>Trade_ID = 1, Trade_Symbol = ''AAPL'', BuyOrderID = 3, SellOrderID = 1,
           Trade_Price = Finite 190, Trade_Quantity = 100, Trade_Timestamp = 3000\<rparr>] \<and>
   \<not> f_lt (Price (store same_time_state 1)) (Price (store same_time_state 2)) \<and>
   \<not> Timestamp (store same_time_state 1) <s Timestamp (store same_time_state 2)"
  by (simp add: matchBuy_selects_def run_defs same_time_state_def after_two_def same_time_asks_def
        StatusOpen_def)

text \<open>
  After a NaN-priced LIMIT order the selected order need not be the best of its side:
  after the bids at 70, NaN, 60 and 80 and the ask at 75, the ask at 70 selects the bid at
  70 and trades with it, while the active bid at 80 rests in the heap.
\<close>

lemma nan_price_breaks_priority:
  "Book nan_state5 ''AAPL'' = Some \<lparr>symbol = ''AAPL'', bids = [1, 2, 3, 4], asks = [5]\<rparr> \<and>
   matchSell_selects 6 (store nan_state5, globalTradeSeq nan_state5, [1, 2, 3, 4], []) 1 \<and>
   IsActive (store nan_state5 4) \<and>
   f_gt (Price (store nan_state5 4)) (Price (store nan_state5 1)) \<and>
   fst (gw_Submit nan_state5 (Some 6)) =
     Inr [\<lparr>Trade_ID = 1, Trade_Symbol = ''AAPL'', BuyOrderID = 1, SellOrderID = 6,
           Trade_Price = Finite 70, Trade_Quantity = 100, Trade_Timestamp = 6000\<rparr>]"
  by (simp add: matchSell_selects_def run_defs nan_state5_def nan_state4_def submit_all_def
        nan_orders_def StatusOpen_def)

end
